theory Spec2Isabelle
  imports Main "HOL-Library.Signed_Division"
begin

section \<open>Go strings and slices\<close>

text \<open>
  A Go \<open>string\<close> is a sequence of bytes, modelled as a \<open>char list\<close>. Run-time panics of
  the Go code (a slice or index out of range, an integer division by zero, a nil pointer
  dereference) are values of the type \<open>panic\<close>; a function that can panic returns
  \<open>panic + 'a\<close>, with \<open>Inl\<close> for the panic.
\<close>

datatype panic = SliceOutOfRange | IndexOutOfRange | DivideByZero | NilDereference

text \<open>\<open>s[lo:hi]\<close> on indices that are natural numbers: Go panics unless \<open>lo \<le> hi \<le> len(s)\<close>.\<close>

definition go_slice :: "'a list \<Rightarrow> nat \<Rightarrow> nat \<Rightarrow> panic + 'a list" where
  "go_slice s lo hi =
     (if lo \<le> hi \<and> hi \<le> length s then Inr (take (hi - lo) (drop lo s)) else Inl SliceOutOfRange)"

text \<open>\<open>strings.HasPrefix(s, prefix)\<close>: \<open>len(s) >= len(prefix) && s[:len(prefix)] == prefix\<close>.\<close>

definition strings_HasPrefix :: "string \<Rightarrow> string \<Rightarrow> bool" where
  "strings_HasPrefix s p = (length p \<le> length s \<and> take (length p) s = p)"

text \<open>
  \<open>strings.Index(s, substr)\<close>: the index of the first occurrence of \<open>substr\<close> in \<open>s\<close>; Go
  returns \<open>-1\<close> when there is none, which is \<open>None\<close> here.
\<close>

fun strings_Index :: "string \<Rightarrow> string \<Rightarrow> nat option" where
  "strings_Index [] sub = (if sub = [] then Some 0 else None)"
| "strings_Index (c # s) sub =
     (if strings_HasPrefix (c # s) sub then Some 0 else map_option Suc (strings_Index s sub))"

text \<open>\<open>strings.Contains(s, substr)\<close> is \<open>strings.Index(s, substr) >= 0\<close>.\<close>

definition strings_Contains :: "string \<Rightarrow> string \<Rightarrow> bool" where
  "strings_Contains s sub = (strings_Index s sub \<noteq> None)"

text \<open>
  \<open>strings.Split(s, " ")\<close> for the one-byte separator the code uses: the fields between
  consecutive separators, empty fields included, so \<open>n\<close> separators give \<open>n + 1\<close> fields.
\<close>

fun strings_Split :: "string \<Rightarrow> char \<Rightarrow> string list" where
  "strings_Split [] sep = [[]]"
| "strings_Split (c # s) sep =
     (if c = sep then [] # strings_Split s sep
      else (case strings_Split s sep of f # fs \<Rightarrow> (c # f) # fs | [] \<Rightarrow> [[c]]))"

text \<open>\<open>xs[i]\<close>: Go panics when the index is out of range.\<close>

definition go_index :: "'a list \<Rightarrow> nat \<Rightarrow> panic + 'a" where
  "go_index xs i = (if i < length xs then Inr (xs ! i) else Inl IndexOutOfRange)"

section \<open>The log grammar\<close>

definition fqdnSuffix :: string where
  "fqdnSuffix = ''.svc.cluster.local.''"

record ConnectionLog =
  FromIP :: string
  ToHostname :: string
  Status :: string
  FromPort :: string

text \<open>The three errors \<open>parseLogMsg\<close> builds with \<open>fmt.Errorf\<close>; each carries the raw line.\<close>

datatype parse_error = FQDNNotFound string | PodIPNotFound string | PodPortNotFound string

definition relevantLogMsg :: "string \<Rightarrow> bool" where
  "relevantLogMsg rawText =
     (strings_HasPrefix rawText ''[INFO]'' \<and>
      strings_Contains rawText fqdnSuffix \<and>
      strings_Contains rawText ''NOERROR'' \<and>
      strings_Contains rawText '':'')"

text \<open>
  The loop \<open>for i := si; i >= 0; i-- { if rawText[i:i+1] == " " { fqdn = rawText[i+1 : si]; break } }\<close>,
  started at \<open>i\<close>. It returns the value of \<open>fqdn\<close> after the loop, which is still the empty
  string when no iteration found a space.
\<close>

fun scan_fqdn :: "string \<Rightarrow> nat \<Rightarrow> nat \<Rightarrow> panic + string" where
  "scan_fqdn rawText si i =
     (case go_slice rawText i (i + 1) of
        Inl p \<Rightarrow> Inl p
      | Inr ch \<Rightarrow>
          if ch = '' '' then go_slice rawText (i + 1) si
          else (case i of 0 \<Rightarrow> Inr [] | Suc j \<Rightarrow> scan_fqdn rawText si j))"

text \<open>
  The loop \<open>for i := len(eiText) - 1; i >= 0; i-- { if eiText[i:i+1] == ":" { ip = eiText[0:i];
  port = eiText[i+1:]; break } }\<close>; the argument \<open>n\<close> is \<open>i + 1\<close>, so that \<open>n = 0\<close> is the
  end of the loop. It returns \<open>(ip, port)\<close>, both empty when no colon was found.
\<close>

fun scan_ip_port :: "string \<Rightarrow> nat \<Rightarrow> panic + (string \<times> string)" where
  "scan_ip_port eiText 0 = Inr ([], [])"
| "scan_ip_port eiText (Suc i) =
     (case go_slice eiText i (i + 1) of
        Inl p \<Rightarrow> Inl p
      | Inr ch \<Rightarrow>
          if ch = '':'' then
            (case go_slice eiText 0 i of
               Inl p \<Rightarrow> Inl p
             | Inr ip \<Rightarrow>
                 (case go_slice eiText (i + 1) (length eiText) of
                    Inl p \<Rightarrow> Inl p
                  | Inr port \<Rightarrow> Inr (ip, port)))
          else scan_ip_port eiText i)"

text \<open>
  The Go function returns a triple \<open>(c, err, success)\<close> and has three kinds of return
  statement, which are the three constructors here: \<open>(nil, nil, false)\<close> for a line that is
  not relevant, \<open>(nil, err, false)\<close> for an error, and \<open>(c, nil, true)\<close> for a parsed line.
  \<open>Status\<close> is never assigned and keeps Go's zero value, the empty string.
\<close>

datatype parse_result = NotRelevant | Failed parse_error | Parsed ConnectionLog

definition parseLogMsg :: "string \<Rightarrow> panic + parse_result" where
  "parseLogMsg rawText =
     (if \<not> relevantLogMsg rawText then Inr NotRelevant
      else
        (case (case strings_Index rawText fqdnSuffix of
                 None \<Rightarrow> Inr []
               | Some si \<Rightarrow> scan_fqdn rawText si si) of
           Inl p \<Rightarrow> Inl p
         | Inr fqdn \<Rightarrow>
             if fqdn = [] then Inr (Failed (FQDNNotFound rawText))
             else
               (case go_index (strings_Split rawText CHR '' '') 1 of
                  Inl p \<Rightarrow> Inl p
                | Inr eiText \<Rightarrow>
                    (case scan_ip_port eiText (length eiText) of
                       Inl p \<Rightarrow> Inl p
                     | Inr (ip, port) \<Rightarrow>
                         if ip = [] then Inr (Failed (PodIPNotFound rawText))
                         else if port = [] then Inr (Failed (PodPortNotFound rawText))
                         else Inr (Parsed \<lparr>FromIP = ip, ToHostname = fqdn @ fqdnSuffix,
                                            Status = [], FromPort = port\<rparr>)))))"

text \<open>
  The extraction rules in words, for comparison with the loops above: the part of a string
  after its last separator, the part before its last separator, and the second of the
  fields that single separators delimit.
\<close>

definition after_last :: "char \<Rightarrow> string \<Rightarrow> string" where
  "after_last sep s = rev (takeWhile (\<lambda>c. c \<noteq> sep) (rev s))"

definition before_last :: "char \<Rightarrow> string \<Rightarrow> string" where
  "before_last sep s = rev (tl (dropWhile (\<lambda>c. c \<noteq> sep) (rev s)))"

definition second_field :: "char \<Rightarrow> string \<Rightarrow> string" where
  "second_field sep s = takeWhile (\<lambda>c. c \<noteq> sep) (tl (dropWhile (\<lambda>c. c \<noteq> sep) s))"

text \<open>
  What \<open>parseLogMsg\<close> yields on a relevant line whose first suffix occurrence starts at
  \<open>si\<close>, stated with the three extraction rules.
\<close>

definition parse_by_rules :: "string \<Rightarrow> nat \<Rightarrow> parse_result" where
  "parse_by_rules rawText si =
     (let host = after_last CHR '' '' (take si rawText);
          tok = second_field CHR '' '' rawText;
          ip = before_last CHR '':'' tok;
          port = after_last CHR '':'' tok
      in if CHR '' '' \<in> set (take si rawText) \<and> host \<noteq> [] then
           if CHR '':'' \<in> set tok \<and> ip \<noteq> [] then
             if port \<noteq> [] then
               Parsed \<lparr>FromIP = ip, ToHostname = host @ fqdnSuffix, Status = [], FromPort = port\<rparr>
             else Failed (PodPortNotFound rawText)
           else Failed (PodIPNotFound rawText)
         else Failed (FQDNNotFound rawText))"

text \<open>Sample lines: Scenario A of the specification and variants of it.\<close>

definition scenarioA :: string where
  "scenarioA = ''[INFO] 10.42.2.90:59003 - 9687 \"AAAA IN user-db.sock-shop.svc.cluster.local. udp 53 false 512\" NOERROR qr,aa,rd 146 0.000428325s''"

definition scenarioB :: string where
  "scenarioB = ''[INFO] 10.42.2.90:59003 - 9687 \"AAAA IN user-db.sock-shop.svc.cluster.local. udp 53 false 512\" NXDOMAIN qr,aa,rd 146 0.000428325s''"

definition lineNoPrefix :: string where
  "lineNoPrefix = ''[ERROR] 10.42.2.90:59003 - 9687 \"AAAA IN user-db.sock-shop.svc.cluster.local. udp 53 false 512\" NOERROR qr,aa,rd 146 0.000428325s''"

definition lineNoSuffix :: string where
  "lineNoSuffix = ''[INFO] 10.42.2.90:59003 - 9687 \"AAAA IN user-db.sock-shop.example.org. udp 53 false 512\" NOERROR qr,aa,rd 146 0.000428325s''"

definition lineNoColon :: string where
  "lineNoColon = ''[INFO] 10.42.2.90 59003 - 9687 \"AAAA IN user-db.sock-shop.svc.cluster.local. udp 53 false 512\" NOERROR qr,aa,rd 146 0.000428325s''"

definition emptyHostLine :: string where
  "emptyHostLine = ''[INFO] 10.42.2.90:59003 - 9687 \"A IN .svc.cluster.local. udp 53 false 512\" NOERROR''"

text \<open>
  A line with a tab, not a space, before the queried name, and a line with two spaces
  after the tag.
\<close>

definition tabLine :: string where
  "tabLine = ''[INFO] 10.42.2.90:59003 - 9687 \"A IN'' @ [CHR 0x09] @
     ''user-db.sock-shop.svc.cluster.local. udp 53 false 512\" NOERROR''"

definition doubleSpaceLine :: string where
  "doubleSpaceLine = ''[INFO]  10.42.2.90:59003 - 9687 \"A IN user-db.sock-shop.svc.cluster.local. udp 53 false 512\" NOERROR''"

definition noPortLine :: string where
  "noPortLine = ''[INFO] 10.42.2.90: - 9687 \"A IN user-db.sock-shop.svc.cluster.local. udp 53 false 512\" NOERROR''"

section \<open>Label maps and the target's service FQDNs\<close>

text \<open>
  A Go \<open>map[string]string\<close> is \<open>None\<close> for the nil map and otherwise an association list
  with distinct keys, in the order in which a \<open>range\<close> over it visits the entries in this
  run (Go leaves that order unspecified, so it is an input of the model). Reading a key
  that is absent, or any key of the nil map, gives the empty string.
\<close>

type_synonym go_map = "(string \<times> string) list option"

definition go_map_get :: "go_map \<Rightarrow> string \<Rightarrow> string" where
  "go_map_get m k =
     (case m of
        None \<Rightarrow> []
      | Some kvs \<Rightarrow> (case map_of kvs k of None \<Rightarrow> [] | Some v \<Rightarrow> v))"

text \<open>\<open>range\<close> over a map: no iteration for the nil map.\<close>

definition go_map_range :: "go_map \<Rightarrow> (string \<times> string) list" where
  "go_map_range m = (case m of None \<Rightarrow> [] | Some kvs \<Rightarrow> kvs)"

text \<open>\<open>delete(m, k)\<close>: a no-op on the nil map and on an absent key.\<close>

definition go_map_delete :: "go_map \<Rightarrow> string \<Rightarrow> go_map" where
  "go_map_delete m k = map_option (filter (\<lambda>kv. fst kv \<noteq> k)) m"

record Pod =
  pod_Name :: string
  pod_Labels :: go_map

record Service =
  svc_Name :: string
  svc_Namespace :: string
  svc_Selector :: go_map

text \<open>
  The inner loop of \<open>findToPodServiceFQDNs\<close> over the selector's entries:
  \<open>if r.toPod.GetLabels()[k] != v { break } else { toPodServices = append(toPodServices, s) }\<close>.
\<close>

fun selector_loop :: "go_map \<Rightarrow> Service \<Rightarrow> (string \<times> string) list \<Rightarrow> Service list \<Rightarrow> Service list" where
  "selector_loop labels s [] toPodServices = toPodServices"
| "selector_loop labels s ((k, v) # kvs) toPodServices =
     (if go_map_get labels k \<noteq> v then toPodServices
      else selector_loop labels s kvs (toPodServices @ [s]))"

fun services_loop :: "go_map \<Rightarrow> Service list \<Rightarrow> Service list \<Rightarrow> Service list" where
  "services_loop labels [] toPodServices = toPodServices"
| "services_loop labels (s # ss) toPodServices =
     services_loop labels ss (selector_loop labels s (go_map_range (svc_Selector s)) toPodServices)"

text \<open>\<open>fmt.Sprintf("%s.%s.svc.cluster.local.", s.Name, s.Namespace)\<close>.\<close>

definition service_fqdn :: "Service \<Rightarrow> string" where
  "service_fqdn s = svc_Name s @ ''.'' @ svc_Namespace s @ ''.svc.cluster.local.''"

text \<open>
  The argument \<open>sList\<close> is what the Services API call returned: \<open>Inl\<close> its error, \<open>Inr\<close> the
  items of the list.
\<close>

definition findToPodServiceFQDNs :: "Pod \<Rightarrow> string + Service list \<Rightarrow> string + string list" where
  "findToPodServiceFQDNs toPod sList =
     (case sList of
        Inl err \<Rightarrow> Inl err
      | Inr items \<Rightarrow> Inr (map service_fqdn (services_loop (pod_Labels toPod) items [])))"

text \<open>A pod with two labels and a service that selects it by both.\<close>

definition userDbPod :: Pod where
  "userDbPod = \<lparr>pod_Name = ''user-db-b8dfb847c-wvkgf'',
                pod_Labels = Some [(''name'', ''user-db''), (''tier'', ''db'')]\<rparr>"

definition userDbService :: Service where
  "userDbService = \<lparr>svc_Name = ''user-db'', svc_Namespace = ''sock-shop'',
                    svc_Selector = Some [(''name'', ''user-db''), (''tier'', ''db'')]\<rparr>"

text \<open>A service whose selector agrees with the pod on \<open>name\<close> only.\<close>

definition cacheService :: Service where
  "cacheService = \<lparr>svc_Name = ''user-cache'', svc_Namespace = ''sock-shop'',
                   svc_Selector = Some [(''name'', ''user-db''), (''tier'', ''cache'')]\<rparr>"

section \<open>Harvesting the logs\<close>

text \<open>
  One log source per CoreDNS pod: either opening the stream failed, or the scanner yielded
  the lines in order and \<open>scanner.Err()\<close> was nil (\<open>False\<close>) or an error (\<open>True\<close>) after the
  last of them.
\<close>

datatype log_source = StreamError string | Stream "string list" bool

text \<open>
  How \<open>parseConnectionLogs\<close> ends other than by returning the list: it returns an error,
  \<open>log.Fatal\<close> exits the process, or the process panics.
\<close>

datatype go_error = ApiError string | ParseError parse_error

datatype failure = Returned go_error | Fatal | Panicked panic

fun scan_loop :: "string list \<Rightarrow> ConnectionLog list \<Rightarrow> failure + ConnectionLog list" where
  "scan_loop [] connLogList = Inr connLogList"
| "scan_loop (t # ts) connLogList =
     (case parseLogMsg t of
        Inl p \<Rightarrow> Inl (Panicked p)
      | Inr (Failed err) \<Rightarrow> Inl (Returned (ParseError err))
      | Inr (Parsed c) \<Rightarrow> scan_loop ts (connLogList @ [c])
      | Inr NotRelevant \<Rightarrow> scan_loop ts connLogList)"

fun pods_loop :: "log_source list \<Rightarrow> ConnectionLog list \<Rightarrow> failure + ConnectionLog list" where
  "pods_loop [] connLogList = Inr connLogList"
| "pods_loop (StreamError err # srcs) connLogList = Inl (Returned (ApiError err))"
| "pods_loop (Stream ls scanErr # srcs) connLogList =
     (case scan_loop ls connLogList of
        Inl f \<Rightarrow> Inl f
      | Inr connLogList' \<Rightarrow> if scanErr then Inl Fatal else pods_loop srcs connLogList')"

definition parseConnectionLogs :: "log_source list \<Rightarrow> failure + ConnectionLog list" where
  "parseConnectionLogs coreDNSPods = pods_loop coreDNSPods []"

text \<open>The events of the lines that parse, in order.\<close>

definition parsed_events :: "string list \<Rightarrow> ConnectionLog list" where
  "parsed_events ls =
     concat (map (\<lambda>t. case parseLogMsg t of Inr (Parsed c) \<Rightarrow> [c] | _ \<Rightarrow> []) ls)"

definition parse_fails :: "string \<Rightarrow> bool" where
  "parse_fails t = (case parseLogMsg t of Inr (Failed err) \<Rightarrow> True | _ \<Rightarrow> False)"

definition scenarioA_event :: ConnectionLog where
  "scenarioA_event = \<lparr>FromIP = ''10.42.2.90'', ToHostname = ''user-db.sock-shop.svc.cluster.local.'',
                      Status = [], FromPort = ''59003''\<rparr>"

section \<open>Correlating events with the topology\<close>

record ObjectReference =
  ref_Kind :: string
  ref_Namespace :: string
  ref_Name :: string

text \<open>\<open>TargetRef\<close> is a pointer: \<open>None\<close> is nil.\<close>

record EndpointAddress =
  ea_IP :: string
  ea_TargetRef :: "ObjectReference option"

record EndpointSubset =
  es_Addresses :: "EndpointAddress list"

record Endpoints =
  ep_Subsets :: "EndpointSubset list"

record Mapping =
  podname :: string
  namespace :: string

text \<open>
  One line of \<open>log.Infof("pod: %s, ns: %s via svc: %s\n", fromPodName, fromNs, c.ToHostname)\<close>,
  kept as its three arguments.
\<close>

record Discovery =
  d_pod :: string
  d_ns :: string
  d_svc :: string

text \<open>
  The fields of \<open>Runner\<close> that correlation reads and writes. \<open>allNamespaces\<close> holds the names
  of the namespace list's items. \<open>allEndpoints\<close> is a \<open>map[string]*v1.EndpointsList\<close>, given
  as the items of each list; a key that is absent reads as the nil pointer. \<open>infoLog\<close> is
  not a field of the Go struct: it collects the lines the logger has printed.
\<close>

record Runner =
  toPodServiceFQDNs :: "string list"
  allNamespaces :: "string list"
  allEndpoints :: "string \<rightharpoonup> Endpoints list"
  connectionLogs :: "ConnectionLog list"
  hostnamePodMapping :: "string \<rightharpoonup> Mapping list"
  concurrency :: int
  infoLog :: "Discovery list"

text \<open>
  The four nested loops of \<open>processConnectionLog\<close>. Each returns the triple
  \<open>(fromPodName, fromNs, found)\<close> as it stands when the loop ends; the two names keep Go's
  zero value, the empty string, while \<open>found\<close> is false. \<open>ea.TargetRef.Kind\<close> is evaluated
  only when \<open>ea.IP == c.FromIP\<close> holds, and dereferences \<open>ea.TargetRef\<close>.
\<close>

fun addresses_loop :: "string \<Rightarrow> EndpointAddress list \<Rightarrow> panic + (string \<times> string \<times> bool)" where
  "addresses_loop fromIP [] = Inr ([], [], False)"
| "addresses_loop fromIP (ea # eas) =
     (if ea_IP ea = fromIP then
        (case ea_TargetRef ea of
           None \<Rightarrow> Inl NilDereference
         | Some ref \<Rightarrow>
             if ref_Kind ref = ''Pod'' then Inr (ref_Name ref, ref_Namespace ref, True)
             else addresses_loop fromIP eas)
      else addresses_loop fromIP eas)"

fun subsets_loop :: "string \<Rightarrow> EndpointSubset list \<Rightarrow> panic + (string \<times> string \<times> bool)" where
  "subsets_loop fromIP [] = Inr ([], [], False)"
| "subsets_loop fromIP (es # ess) =
     (case addresses_loop fromIP (es_Addresses es) of
        Inl p \<Rightarrow> Inl p
      | Inr (fromPodName, fromNs, found) \<Rightarrow>
          if found then Inr (fromPodName, fromNs, found) else subsets_loop fromIP ess)"

fun endpoints_loop :: "string \<Rightarrow> Endpoints list \<Rightarrow> panic + (string \<times> string \<times> bool)" where
  "endpoints_loop fromIP [] = Inr ([], [], False)"
| "endpoints_loop fromIP (e # es) =
     (case subsets_loop fromIP (ep_Subsets e) of
        Inl p \<Rightarrow> Inl p
      | Inr (fromPodName, fromNs, found) \<Rightarrow>
          if found then Inr (fromPodName, fromNs, found) else endpoints_loop fromIP es)"

fun namespaces_loop ::
  "(string \<rightharpoonup> Endpoints list) \<Rightarrow> string \<Rightarrow> string list \<Rightarrow> panic + (string \<times> string \<times> bool)" where
  "namespaces_loop eps fromIP [] = Inr ([], [], False)"
| "namespaces_loop eps fromIP (n # ns) =
     (case eps n of
        None \<Rightarrow> Inl NilDereference
      | Some items \<Rightarrow>
          (case endpoints_loop fromIP items of
             Inl p \<Rightarrow> Inl p
           | Inr (fromPodName, fromNs, found) \<Rightarrow>
               if found then Inr (fromPodName, fromNs, found) else namespaces_loop eps fromIP ns))"

text \<open>The loop that sets \<open>present\<close>.\<close>

fun podname_present :: "string \<Rightarrow> Mapping list \<Rightarrow> bool" where
  "podname_present fromPodName [] = False"
| "podname_present fromPodName (p # ps) =
     (if podname p = fromPodName then True else podname_present fromPodName ps)"

text \<open>
  The part of \<open>processConnectionLog\<close> after the nested loops: the entry of the hostname is
  created when it is nil, and the identity is appended and logged unless its pod name is
  present. Nothing here reads \<open>found\<close>.
\<close>

definition record_identity :: "Runner \<Rightarrow> string \<Rightarrow> string \<Rightarrow> string \<Rightarrow> Runner" where
  "record_identity r toHostname fromPodName fromNs =
     (let entries = (case hostnamePodMapping r toHostname of None \<Rightarrow> [] | Some ms \<Rightarrow> ms)
      in if \<not> podname_present fromPodName entries then
           r\<lparr>hostnamePodMapping :=
                (hostnamePodMapping r)(toHostname \<mapsto>
                   entries @ [\<lparr>podname = fromPodName, namespace = fromNs\<rparr>]),
              infoLog := infoLog r @ [\<lparr>d_pod = fromPodName, d_ns = fromNs, d_svc = toHostname\<rparr>]\<rparr>
         else r\<lparr>hostnamePodMapping := (hostnamePodMapping r)(toHostname \<mapsto> entries)\<rparr>)"

text \<open>
  The outer loop over \<open>r.toPodServiceFQDNs\<close>, which ends at the first FQDN equal to the
  event's hostname. The function returns the runner as the call leaves it; the Go function
  itself always returns a nil error.
\<close>

fun fqdns_loop :: "Runner \<Rightarrow> ConnectionLog \<Rightarrow> string list \<Rightarrow> panic + Runner" where
  "fqdns_loop r c [] = Inr r"
| "fqdns_loop r c (f # fs) =
     (if ToHostname c = f then
        (case namespaces_loop (allEndpoints r) (FromIP c) (allNamespaces r) of
           Inl p \<Rightarrow> Inl p
         | Inr (fromPodName, fromNs, found) \<Rightarrow>
             Inr (record_identity r (ToHostname c) fromPodName fromNs))
      else fqdns_loop r c fs)"

definition processConnectionLog :: "Runner \<Rightarrow> ConnectionLog \<Rightarrow> panic + Runner" where
  "processConnectionLog r c = fqdns_loop r c (toPodServiceFQDNs r)"

text \<open>
  \<open>processConnectionLogsSegment\<close> takes the mutex around each call of
  \<open>processConnectionLog\<close>, so the calls of all segments happen one after the other, in the
  order in which the mutex is granted. \<open>process_in_order\<close> is the effect of the calls in a
  given such order; a panic ends the process.
\<close>

fun process_in_order :: "ConnectionLog list \<Rightarrow> Runner \<Rightarrow> panic + Runner" where
  "process_in_order [] r = Inr r"
| "process_in_order (c # cs) r =
     (case processConnectionLog r c of Inl p \<Rightarrow> Inl p | Inr r' \<Rightarrow> process_in_order cs r')"

subsection \<open>The segments\<close>

text \<open>
  Go's \<open>int\<close> is modelled by the unbounded integers: every product the loop computes is at
  most the length of the list. \<open>/\<close> and \<open>%\<close> truncate towards zero (\<open>sdiv\<close>, \<open>smod\<close>) and
  panic on a zero divisor. \<open>xs[lo:hi]\<close> with integer indices panics unless
  \<open>0 \<le> lo \<le> hi \<le> len(xs)\<close>.
\<close>

definition go_slice_int :: "'a list \<Rightarrow> int \<Rightarrow> int \<Rightarrow> panic + 'a list" where
  "go_slice_int xs lo hi =
     (if 0 \<le> lo \<and> lo \<le> hi \<and> hi \<le> int (length xs)
      then Inr (take (nat (hi - lo)) (drop (nat lo) xs))
      else Inl SliceOutOfRange)"

text \<open>
  The loop \<open>for i := 0; i < segments; i++\<close>, which cuts the segment
  \<open>r.connectionLogs[i * r.concurrency : (i + 1) * r.concurrency]\<close> for one goroutine each.
\<close>

function segments_loop :: "int \<Rightarrow> int \<Rightarrow> int \<Rightarrow> 'a list \<Rightarrow> 'a list list \<Rightarrow> panic + 'a list list" where
  "segments_loop i segments c xs segs =
     (if i < segments then
        (case go_slice_int xs (i * c) ((i + 1) * c) of
           Inl p \<Rightarrow> Inl p
         | Inr seg \<Rightarrow> segments_loop (i + 1) segments c xs (segs @ [seg]))
      else Inr segs)"
  by pat_completeness auto
termination
  by (relation "measure (\<lambda>(i, segments, c, xs, segs). nat (segments - i))") auto

text \<open>
  The segments \<open>processConnectionLogs\<close> hands to goroutines, in the order of their
  channels: \<open>l / r.concurrency\<close> full ones and, if \<open>m := l % r.concurrency\<close> is not zero, the
  last \<open>m\<close> events.
\<close>

definition segments_of :: "int \<Rightarrow> 'a list \<Rightarrow> panic + 'a list list" where
  "segments_of c xs =
     (if c = 0 then Inl DivideByZero
      else
        (let l = int (length xs); segments = l sdiv c in
         case segments_loop 0 segments c xs [] of
           Inl p \<Rightarrow> Inl p
         | Inr segs \<Rightarrow>
             (let m = l smod c in
              if m \<noteq> 0 then
                (case go_slice_int xs (l - m) l of
                   Inl p \<Rightarrow> Inl p
                 | Inr seg \<Rightarrow> Inr (segs @ [seg]))
              else Inr segs)))"

text \<open>
  The orders in which the mutex can be granted: every goroutine takes the events of its
  segment in order, and the goroutines interleave freely.
\<close>

inductive interleaving :: "'a list list \<Rightarrow> 'a list \<Rightarrow> bool" where
  all_done: "list_all (\<lambda>seg. seg = []) segs \<Longrightarrow> interleaving segs []"
| next_event: "i < length segs \<Longrightarrow> segs ! i = x # rest \<Longrightarrow> interleaving (segs[i := rest]) xs \<Longrightarrow>
         interleaving segs (x # xs)"

text \<open>
  \<open>processConnectionLogs\<close> as a relation between the runner and an outcome: a panic while
  the segments are cut, or the effect of the events in one of the possible orders.
\<close>

inductive processConnectionLogs :: "Runner \<Rightarrow> panic + Runner \<Rightarrow> bool" where
  cut_panics:
    "segments_of (concurrency r) (connectionLogs r) = Inl p \<Longrightarrow> processConnectionLogs r (Inl p)"
| runs:
    "segments_of (concurrency r) (connectionLogs r) = Inr segs \<Longrightarrow> interleaving segs sched \<Longrightarrow>
     processConnectionLogs r (process_in_order sched r)"

section \<open>Synthesizing the policy\<close>

definition ignoredPodLabels :: "string list" where
  "ignoredPodLabels = [''pod-template-hash'']"

text \<open>\<open>for _, ignoredLabel := range ignoredPodLabels { delete(l, ignoredLabel) }\<close>.\<close>

definition delete_ignored :: "go_map \<Rightarrow> go_map" where
  "delete_ignored l = foldl go_map_delete l ignoredPodLabels"

text \<open>
  \<open>reflect.DeepEqual\<close> on two maps of strings: both nil or both not nil, of the same length,
  and every key of the first is a key of the second with the same value.
\<close>

definition DeepEqual :: "go_map \<Rightarrow> go_map \<Rightarrow> bool" where
  "DeepEqual a b =
     (case a of
        None \<Rightarrow> (case b of None \<Rightarrow> True | Some y \<Rightarrow> False)
      | Some x \<Rightarrow>
          (case b of
             None \<Rightarrow> False
           | Some y \<Rightarrow> length x = length y \<and> list_all (\<lambda>kv. map_of y (fst kv) = Some (snd kv)) x))"

text \<open>A peer is its \<open>PodSelector.MatchLabels\<close>; the policy is the fields the code sets.\<close>

record NetworkPolicyPeer =
  MatchLabels :: go_map

record NetworkPolicy =
  np_Name :: string
  np_PodSelector :: go_map
  np_From :: "NetworkPolicyPeer list"

text \<open>The loop that sets \<open>found\<close>; it has no \<open>break\<close>.\<close>

fun found_loop :: "NetworkPolicyPeer list \<Rightarrow> go_map \<Rightarrow> bool \<Rightarrow> bool" where
  "found_loop [] l found = found"
| "found_loop (netPolPeer # ps) l found =
     found_loop ps l (if DeepEqual (MatchLabels netPolPeer) l then True else found)"

text \<open>
  The loop over the mappings of one hostname. \<open>get namespace name\<close> is the call
  \<open>r.clientset.CoreV1().Pods(namespace).Get(..., name, ...)\<close> and gives the pair
  \<open>(fromPod, err)\<close>: the pointer (\<open>None\<close> when nil) and the error (\<open>None\<close> when nil). The
  state is \<open>netPolPeers\<close> and \<open>errLog\<close>, which holds the error of every call of
  \<open>log.Errorf("couldn't get pod: %w", err)\<close>, one entry per call; the text that the logger
  prints for the \<open>%w\<close> verb is not modelled. After logging an error the code goes on to
  \<open>fromPod.GetLabels()\<close>, which dereferences \<open>fromPod\<close>.
\<close>

fun mapping_loop ::
  "(string \<Rightarrow> string \<Rightarrow> Pod option \<times> string option) \<Rightarrow> Mapping list \<Rightarrow>
   NetworkPolicyPeer list \<times> string list \<Rightarrow> panic + (NetworkPolicyPeer list \<times> string list)" where
  "mapping_loop get [] st = Inr st"
| "mapping_loop get (mapping # ms) (netPolPeers, errLog) =
     (case get (namespace mapping) (podname mapping) of
        (fromPod, err) \<Rightarrow>
          (let errLog' = (case err of None \<Rightarrow> errLog | Some e \<Rightarrow> errLog @ [e])
           in case fromPod of
                None \<Rightarrow> Inl NilDereference
              | Some pod \<Rightarrow>
                  (let l = delete_ignored (pod_Labels pod) in
                   if \<not> found_loop netPolPeers l False
                   then mapping_loop get ms (netPolPeers @ [\<lparr>MatchLabels = l\<rparr>], errLog')
                   else mapping_loop get ms (netPolPeers, errLog'))))"

text \<open>
  The loop over \<open>r.hostnamePodMapping\<close>; \<open>hosts\<close> lists the keys in the order in which this
  \<open>range\<close> visits them.
\<close>

fun hosts_loop ::
  "(string \<Rightarrow> string \<Rightarrow> Pod option \<times> string option) \<Rightarrow> (string \<rightharpoonup> Mapping list) \<Rightarrow> string list \<Rightarrow>
   NetworkPolicyPeer list \<times> string list \<Rightarrow> panic + (NetworkPolicyPeer list \<times> string list)" where
  "hosts_loop get hm [] st = Inr st"
| "hosts_loop get hm (h # hs) st =
     (case mapping_loop get (case hm h of None \<Rightarrow> [] | Some ms \<Rightarrow> ms) st of
        Inl p \<Rightarrow> Inl p
      | Inr st' \<Rightarrow> hosts_loop get hm hs st')"

text \<open>
  \<open>suggestNetPol\<close> up to the policy value \<open>n\<close>, with the errors logged on the way; the
  rendering of \<open>n\<close> as YAML is not modelled.
\<close>

definition suggestNetPol ::
  "(string \<Rightarrow> string \<Rightarrow> Pod option \<times> string option) \<Rightarrow> Pod \<Rightarrow> (string \<rightharpoonup> Mapping list) \<Rightarrow>
   string list \<Rightarrow> panic + (NetworkPolicy \<times> string list)" where
  "suggestNetPol get toPod hm hosts =
     (case hosts_loop get hm hosts ([], []) of
        Inl p \<Rightarrow> Inl p
      | Inr (netPolPeers, errLog) \<Rightarrow>
          Inr (\<lparr>np_Name = pod_Name toPod @ ''-ingress'',
                np_PodSelector = delete_ignored (pod_Labels toPod),
                np_From = netPolPeers\<rparr>, errLog))"

section \<open>Notions for stating the properties\<close>

text \<open>The \<open>k\<close>-th of the consecutive pieces of length \<open>n\<close> of a list.\<close>

definition chunk :: "nat \<Rightarrow> 'a list \<Rightarrow> nat \<Rightarrow> 'a list" where
  "chunk n xs k = take n (drop (k * n) xs)"

text \<open>The entries of a hostname, none when the hostname is not a key.\<close>

definition entries :: "Runner \<Rightarrow> string \<Rightarrow> Mapping list" where
  "entries r h = (case hostnamePodMapping r h of None \<Rightarrow> [] | Some ms \<Rightarrow> ms)"

text \<open>The identity that a discovery record names.\<close>

definition identity_of :: "Discovery \<Rightarrow> Mapping" where
  "identity_of d = \<lparr>podname = d_pod d, namespace = d_ns d\<rparr>"

text \<open>
  The endpoint addresses of the snapshot in the order in which the nested loops visit
  them: namespace by namespace, endpoints by endpoints, subset by subset.
\<close>

definition addresses_of :: "Endpoints list \<Rightarrow> EndpointAddress list" where
  "addresses_of items = concat (map (\<lambda>e. concat (map es_Addresses (ep_Subsets e))) items)"

definition all_addresses :: "Runner \<Rightarrow> EndpointAddress list" where
  "all_addresses r =
     concat (map (\<lambda>n. case allEndpoints r n of None \<Rightarrow> [] | Some items \<Rightarrow> addresses_of items)
       (allNamespaces r))"

text \<open>
  An address ends the scan for a source IP when it has that IP and either no target
  reference or a target of kind \<open>Pod\<close>.
\<close>

definition ends_scan :: "string \<Rightarrow> EndpointAddress \<Rightarrow> bool" where
  "ends_scan fromIP ea =
     (ea_IP ea = fromIP \<and>
      (case ea_TargetRef ea of None \<Rightarrow> True | Some ref \<Rightarrow> ref_Kind ref = ''Pod''))"

text \<open>Every listed namespace has its endpoints list, as \<open>Initialize\<close> builds the map.\<close>

definition snapshot_complete :: "Runner \<Rightarrow> bool" where
  "snapshot_complete r = list_all (\<lambda>n. allEndpoints r n \<noteq> None) (allNamespaces r)"

text \<open>
  The invariant of correlation: under every hostname the pod names are distinct, and the
  discovery records of the hostname name its entries, in order.
\<close>

definition dedup_inv :: "Runner \<Rightarrow> bool" where
  "dedup_inv r \<longleftrightarrow>
     (\<forall>h. distinct (map podname (entries r h)) \<and>
          map identity_of (filter (\<lambda>d. d_svc d = h) (infoLog r)) = entries r h)"

text \<open>The pod name that the scan gives for an event: empty when the source IP is not resolved.\<close>

definition resolved_name :: "Runner \<Rightarrow> ConnectionLog \<Rightarrow> string" where
  "resolved_name r c =
     (case namespaces_loop (allEndpoints r) (FromIP c) (allNamespaces r) of
        Inl p \<Rightarrow> []
      | Inr (fromPodName, fromNs, found) \<Rightarrow> fromPodName)"

text \<open>An event on which \<open>processConnectionLog\<close> panics; the mapping plays no part in it.\<close>

definition event_panics :: "Runner \<Rightarrow> ConnectionLog \<Rightarrow> bool" where
  "event_panics r c =
     (ToHostname c \<in> set (toPodServiceFQDNs r) \<and>
      isl (namespaces_loop (allEndpoints r) (FromIP c) (allNamespaces r)))"

text \<open>
  The identity that the scan gives for an event: the name and namespace of the pod, both
  empty when the source IP is not resolved.
\<close>

definition resolved_identity :: "Runner \<Rightarrow> ConnectionLog \<Rightarrow> Mapping" where
  "resolved_identity r c =
     (case namespaces_loop (allEndpoints r) (FromIP c) (allNamespaces r) of
        Inl p \<Rightarrow> \<lparr>podname = [], namespace = []\<rparr>
      | Inr (fromPodName, fromNs, found) \<Rightarrow> \<lparr>podname = fromPodName, namespace = fromNs\<rparr>)"

text \<open>The events of a list that go to a hostname which is one of the target's FQDNs.\<close>

definition events_to :: "Runner \<Rightarrow> string \<Rightarrow> ConnectionLog list \<Rightarrow> ConnectionLog list" where
  "events_to r h cs = filter (\<lambda>c. ToHostname c = h \<and> h \<in> set (toPodServiceFQDNs r)) cs"

text \<open>The identities of a list without those whose pod name occurred earlier in it.\<close>

fun first_by_name :: "Mapping list \<Rightarrow> Mapping list" where
  "first_by_name [] = []"
| "first_by_name (m # ms) = m # first_by_name (filter (\<lambda>x. podname x \<noteq> podname m) ms)"

section \<open>Sample snapshots, events and runs\<close>

text \<open>
  A runner for the target \<open>user-db\<close> in the namespace \<open>sock-shop\<close>, whose endpoints hold the
  pods \<open>user-79dddf5cc9-bzvhd\<close> at \<open>10.42.2.90\<close> and \<open>orders-6d8c5b7f4-x2x9q\<close> at \<open>10.42.2.91\<close>.
\<close>

definition userDbFQDN :: string where
  "userDbFQDN = ''user-db.sock-shop.svc.cluster.local.''"

definition sockShopRunner :: Runner where
  "sockShopRunner =
     \<lparr>toPodServiceFQDNs = [userDbFQDN],
      allNamespaces = [''sock-shop''],
      allEndpoints = [''sock-shop'' \<mapsto>
        [\<lparr>ep_Subsets = [\<lparr>es_Addresses =
           [\<lparr>ea_IP = ''10.42.2.90'',
             ea_TargetRef = Some \<lparr>ref_Kind = ''Pod'', ref_Namespace = ''sock-shop'',
                                   ref_Name = ''user-79dddf5cc9-bzvhd''\<rparr>\<rparr>,
            \<lparr>ea_IP = ''10.42.2.91'',
             ea_TargetRef = Some \<lparr>ref_Kind = ''Pod'', ref_Namespace = ''sock-shop'',
                                   ref_Name = ''orders-6d8c5b7f4-x2x9q''\<rparr>\<rparr>]\<rparr>]\<rparr>]],
      connectionLogs = [],
      hostnamePodMapping = Map.empty,
      concurrency = 1,
      infoLog = []\<rparr>"

text \<open>Events to the target from the two pods and from an address no endpoint has.\<close>

definition userEvent :: ConnectionLog where
  "userEvent = \<lparr>FromIP = ''10.42.2.90'', ToHostname = userDbFQDN, Status = [], FromPort = ''59003''\<rparr>"

definition ordersEvent :: ConnectionLog where
  "ordersEvent = \<lparr>FromIP = ''10.42.2.91'', ToHostname = userDbFQDN, Status = [], FromPort = ''40112''\<rparr>"

definition strangerEvent :: ConnectionLog where
  "strangerEvent = \<lparr>FromIP = ''10.42.9.9'', ToHostname = userDbFQDN, Status = [], FromPort = ''51000''\<rparr>"

text \<open>
  Two snapshots in which a second address for \<open>10.42.2.90\<close> has no target reference: in the
  first it comes after the address of the pod, in the second before it.
\<close>

definition userPodAddress :: EndpointAddress where
  "userPodAddress =
     \<lparr>ea_IP = ''10.42.2.90'',
      ea_TargetRef = Some \<lparr>ref_Kind = ''Pod'', ref_Namespace = ''sock-shop'',
                            ref_Name = ''user-79dddf5cc9-bzvhd''\<rparr>\<rparr>"

definition danglingAddress :: EndpointAddress where
  "danglingAddress = \<lparr>ea_IP = ''10.42.2.90'', ea_TargetRef = None\<rparr>"

definition danglingLastRunner :: Runner where
  "danglingLastRunner =
     sockShopRunner\<lparr>allEndpoints := [''sock-shop'' \<mapsto>
        [\<lparr>ep_Subsets = [\<lparr>es_Addresses = [userPodAddress]\<rparr>, \<lparr>es_Addresses = [danglingAddress]\<rparr>]\<rparr>]]\<rparr>"

definition danglingFirstRunner :: Runner where
  "danglingFirstRunner =
     sockShopRunner\<lparr>allEndpoints := [''sock-shop'' \<mapsto>
        [\<lparr>ep_Subsets = [\<lparr>es_Addresses = [danglingAddress]\<rparr>, \<lparr>es_Addresses = [userPodAddress]\<rparr>]\<rparr>]]\<rparr>"

text \<open>The identities of the two pods and their discovery records.\<close>

definition userIdentity :: Mapping where
  "userIdentity = \<lparr>podname = ''user-79dddf5cc9-bzvhd'', namespace = ''sock-shop''\<rparr>"

definition ordersIdentity :: Mapping where
  "ordersIdentity = \<lparr>podname = ''orders-6d8c5b7f4-x2x9q'', namespace = ''sock-shop''\<rparr>"

definition userDiscovery :: Discovery where
  "userDiscovery = \<lparr>d_pod = ''user-79dddf5cc9-bzvhd'', d_ns = ''sock-shop'', d_svc = userDbFQDN\<rparr>"

definition ordersDiscovery :: Discovery where
  "ordersDiscovery = \<lparr>d_pod = ''orders-6d8c5b7f4-x2x9q'', d_ns = ''sock-shop'', d_svc = userDbFQDN\<rparr>"

text \<open>
  Three events, two of them from the same pod, with the factor 4 (one segment); and two
  events from different pods with the factor 1 (two segments). The results are those of
  the run of the first, and of the two runs of the second.
\<close>

definition repeatedCallerRunner :: Runner where
  "repeatedCallerRunner =
     sockShopRunner\<lparr>connectionLogs := [userEvent, userEvent, ordersEvent], concurrency := 4\<rparr>"

definition twoCallersRunner :: Runner where
  "twoCallersRunner = sockShopRunner\<lparr>connectionLogs := [userEvent, ordersEvent]\<rparr>"

definition repeatedCallerResult :: Runner where
  "repeatedCallerResult =
     repeatedCallerRunner\<lparr>hostnamePodMapping := [userDbFQDN \<mapsto> [userIdentity, ordersIdentity]],
                          infoLog := [userDiscovery, ordersDiscovery]\<rparr>"

definition userFirstResult :: Runner where
  "userFirstResult =
     twoCallersRunner\<lparr>hostnamePodMapping := [userDbFQDN \<mapsto> [userIdentity, ordersIdentity]],
                      infoLog := [userDiscovery, ordersDiscovery]\<rparr>"

definition ordersFirstResult :: Runner where
  "ordersFirstResult =
     twoCallersRunner\<lparr>hostnamePodMapping := [userDbFQDN \<mapsto> [ordersIdentity, userIdentity]],
                      infoLog := [ordersDiscovery, userDiscovery]\<rparr>"

text \<open>The two-event runner with the factor \<open>-3\<close>, and the result of its run.\<close>

definition negativeFactorRunner :: Runner where
  "negativeFactorRunner = twoCallersRunner\<lparr>concurrency := - 3\<rparr>"

definition negativeFactorResult :: Runner where
  "negativeFactorResult =
     negativeFactorRunner\<lparr>hostnamePodMapping := [userDbFQDN \<mapsto> [userIdentity, ordersIdentity]],
                          infoLog := [userDiscovery, ordersDiscovery]\<rparr>"

text \<open>
  Two stand-ins for the pod lookup. The first knows the pod \<open>user-79dddf5cc9-bzvhd\<close> and
  fails for every other name the way the typed client does, with an error and a pointer to
  an empty pod. The second fails for every name with an error and a nil pointer.
\<close>

definition sockShopGet :: "string \<Rightarrow> string \<Rightarrow> Pod option \<times> string option" where
  "sockShopGet ns name =
     (if ns = ''sock-shop'' \<and> name = ''user-79dddf5cc9-bzvhd''
      then (Some \<lparr>pod_Name = name,
                   pod_Labels = Some [(''name'', ''user''), (''pod-template-hash'', ''79dddf5cc9'')]\<rparr>,
            None)
      else (Some \<lparr>pod_Name = [], pod_Labels = None\<rparr>, Some (''pods '' @ name @ '' not found'')))"

definition nilGet :: "string \<Rightarrow> string \<Rightarrow> Pod option \<times> string option" where
  "nilGet ns name = (None, Some (''pods '' @ name @ '' not found''))"

section \<open>Properties of the string functions\<close>

lemma strings_HasPrefix_iff: "strings_HasPrefix s p \<longleftrightarrow> (\<exists>r. s = p @ r)"
proof
  assume "strings_HasPrefix s p"
  then have "s = p @ drop (length p) s"
    by (metis append_take_drop_id strings_HasPrefix_def)
  then show "\<exists>r. s = p @ r" ..
next
  assume "\<exists>r. s = p @ r"
  then show "strings_HasPrefix s p"
    by (auto simp: strings_HasPrefix_def)
qed

lemma strings_Index_Some_iff_occurs:
  "strings_Index s sub \<noteq> None \<longleftrightarrow> (\<exists>a b. s = a @ sub @ b)"
proof (induction s)
  case Nil
  then show ?case by auto
next
  case (Cons c s)
  show ?case
  proof (cases "strings_HasPrefix (c # s) sub")
    case True
    then obtain r where "c # s = sub @ r" by (auto simp: strings_HasPrefix_iff)
    then have "c # s = [] @ sub @ r" by simp
    then have "\<exists>a b. c # s = a @ sub @ b" by blast
    with True show ?thesis by simp
  next
    case False
    have "(\<exists>a b. c # s = a @ sub @ b) \<longleftrightarrow> (\<exists>a b. s = a @ sub @ b)"
    proof
      assume "\<exists>a b. c # s = a @ sub @ b"
      then obtain a b where ab: "c # s = a @ sub @ b" by blast
      show "\<exists>a b. s = a @ sub @ b"
      proof (cases a)
        case Nil
        with ab have "strings_HasPrefix (c # s) sub" by (auto simp: strings_HasPrefix_iff)
        with False show ?thesis by simp
      next
        case (Cons x a')
        with ab have "s = a' @ sub @ b" by simp
        then show ?thesis by blast
      qed
    next
      assume "\<exists>a b. s = a @ sub @ b"
      then obtain a b where "s = a @ sub @ b" by blast
      then have "c # s = (c # a) @ sub @ b" by simp
      then show "\<exists>a b. c # s = a @ sub @ b" by blast
    qed
    with False Cons.IH show ?thesis by simp
  qed
qed

lemma strings_Contains_iff: "strings_Contains s sub \<longleftrightarrow> (\<exists>a b. s = a @ sub @ b)"
  unfolding strings_Contains_def by (rule strings_Index_Some_iff_occurs)

text \<open>\<open>strings_Index\<close> gives the first occurrence.\<close>

lemma strings_Index_first:
  "strings_Index s sub = Some i \<Longrightarrow> j < i \<Longrightarrow> take (length sub) (drop j s) \<noteq> sub \<or> length s < j + length sub"
proof (induction s arbitrary: i j)
  case Nil
  then show ?case by (simp split: if_splits)
next
  case (Cons c s)
  show ?case
  proof (cases "strings_HasPrefix (c # s) sub")
    case True
    with Cons.prems show ?thesis by simp
  next
    case False
    with Cons.prems obtain i' where i': "strings_Index s sub = Some i'" "i = Suc i'" by auto
    show ?thesis
    proof (cases j)
      case 0
      with False show ?thesis by (auto simp: strings_HasPrefix_def)
    next
      case (Suc j')
      with Cons.prems i' have "j' < i'" by simp
      from Cons.IH [OF i'(1) this] Suc show ?thesis by simp
    qed
  qed
qed

lemma strings_Index_SomeD:
  "strings_Index s sub = Some i \<Longrightarrow> i + length sub \<le> length s \<and> take (length sub) (drop i s) = sub"
proof (induction s arbitrary: i)
  case Nil
  then show ?case by (simp split: if_splits)
next
  case (Cons c s)
  show ?case
  proof (cases "strings_HasPrefix (c # s) sub")
    case True
    with Cons.prems have "i = 0" by simp
    with True show ?thesis by (simp add: strings_HasPrefix_def)
  next
    case False
    with Cons.prems obtain j where j: "strings_Index s sub = Some j" "i = Suc j" by auto
    from Cons.IH [OF j(1)] j(2) show ?thesis by simp
  qed
qed

lemma split_last_sep:
  "sep \<in> set s \<Longrightarrow> s = before_last sep s @ [sep] @ after_last sep s \<and> sep \<notin> set (after_last sep s)"
proof -
  assume a: "sep \<in> set s"
  let ?P = "\<lambda>c. c \<noteq> sep"
  have "dropWhile ?P (rev s) \<noteq> []" using a by (simp add: dropWhile_eq_Nil_conv)
  moreover have "hd (dropWhile ?P (rev s)) = sep"
    using a hd_dropWhile [of ?P "rev s"] by (auto simp: dropWhile_eq_Nil_conv)
  ultimately have d: "dropWhile ?P (rev s) = sep # tl (dropWhile ?P (rev s))"
    by (metis list.collapse)
  have "rev s = takeWhile ?P (rev s) @ dropWhile ?P (rev s)" by simp
  then have "rev s = takeWhile ?P (rev s) @ sep # tl (dropWhile ?P (rev s))" using d by simp
  then have "rev (rev s) = rev (takeWhile ?P (rev s) @ sep # tl (dropWhile ?P (rev s)))" by simp
  then have "s = before_last sep s @ [sep] @ after_last sep s"
    by (simp add: before_last_def after_last_def)
  moreover have "sep \<notin> set (after_last sep s)"
    using set_takeWhileD [of sep ?P "rev s"] by (auto simp: after_last_def)
  ultimately show ?thesis by simp
qed

declare scan_fqdn.simps [simp del]

lemma go_slice_in: "lo \<le> hi \<Longrightarrow> hi \<le> length s \<Longrightarrow> go_slice s lo hi = Inr (take (hi - lo) (drop lo s))"
  by (simp add: go_slice_def)

lemma go_slice_one: "i < length s \<Longrightarrow> go_slice s i (Suc i) = Inr [s ! i]"
proof -
  assume a: "i < length s"
  then have "drop i s = s ! i # drop (Suc i) s" by (simp add: Cons_nth_drop_Suc)
  then show ?thesis using a by (simp add: go_slice_def)
qed

lemma scan_fqdn_below:
  "i < si \<Longrightarrow> si \<le> length t \<Longrightarrow>
   scan_fqdn t si i =
     Inr (if CHR '' '' \<in> set (take (Suc i) t)
          then after_last CHR '' '' (take (Suc i) t) @ take (si - Suc i) (drop (Suc i) t)
          else [])"
proof (induction i)
  case 0
  then obtain c cs where t: "t = c # cs" by (cases t) auto
  show ?case
    using 0 by (subst scan_fqdn.simps) (simp add: t go_slice_in after_last_def)
next
  case (Suc j)
  then have jl: "Suc j < length t" by simp
  have tk: "take (Suc (Suc j)) t = take (Suc j) t @ [t ! Suc j]"
    using jl by (simp add: take_Suc_conv_app_nth)
  show ?case
  proof (cases "t ! Suc j = CHR '' ''")
    case True
    have g: "go_slice t (Suc (Suc j)) si = Inr (take (si - Suc (Suc j)) (drop (Suc (Suc j)) t))"
      using Suc.prems by (simp add: go_slice_in)
    show ?thesis
      using jl True
      by (subst scan_fqdn.simps) (simp add: go_slice_one tk after_last_def g)
  next
    case False
    have ih: "scan_fqdn t si j =
       Inr (if CHR '' '' \<in> set (take (Suc j) t)
            then after_last CHR '' '' (take (Suc j) t) @ take (si - Suc j) (drop (Suc j) t)
            else [])"
      using Suc by simp
    have dr: "take (si - Suc j) (drop (Suc j) t) = t ! Suc j # take (si - Suc (Suc j)) (drop (Suc (Suc j)) t)"
      using Suc.prems jl
      by (metis Cons_nth_drop_Suc Suc_diff_Suc take_Suc_Cons)
    show ?thesis
      using False jl
      by (subst scan_fqdn.simps) (simp add: go_slice_one ih tk after_last_def dr)
  qed
qed

lemma scan_fqdn_start:
  assumes "si < length t" "t ! si \<noteq> CHR '' ''"
  shows "scan_fqdn t si si =
     Inr (if CHR '' '' \<in> set (take si t) then after_last CHR '' '' (take si t) else [])"
proof (cases si)
  case 0
  then show ?thesis using assms by (subst scan_fqdn.simps) (simp add: go_slice_one)
next
  case (Suc j)
  have "scan_fqdn t si si = scan_fqdn t si j"
    using assms Suc by (subst scan_fqdn.simps) (simp add: go_slice_one)
  also have "\<dots> = Inr (if CHR '' '' \<in> set (take (Suc j) t)
          then after_last CHR '' '' (take (Suc j) t) @ take (si - Suc j) (drop (Suc j) t)
          else [])"
    using assms Suc by (intro scan_fqdn_below) simp_all
  finally show ?thesis using Suc by simp
qed

lemma scan_ip_port_upto:
  "n \<le> length tok \<Longrightarrow>
   scan_ip_port tok n =
     Inr (if CHR '':'' \<in> set (take n tok)
          then (before_last CHR '':'' (take n tok), after_last CHR '':'' (take n tok) @ drop n tok)
          else ([], []))"
proof (induction n)
  case 0
  then show ?case by simp
next
  case (Suc i)
  then have il: "i < length tok" by simp
  have tk: "take (Suc i) tok = take i tok @ [tok ! i]"
    using il by (simp add: take_Suc_conv_app_nth)
  show ?case
  proof (cases "tok ! i = CHR '':''")
    case True
    have g: "go_slice tok 0 i = Inr (take i tok)"
      "go_slice tok (Suc i) (length tok) = Inr (drop (Suc i) tok)"
      using il by (simp_all add: go_slice_in)
    show ?thesis
      using il True by (simp add: go_slice_one tk g before_last_def after_last_def)
  next
    case False
    have dr: "drop i tok = tok ! i # drop (Suc i) tok"
      using il by (simp add: Cons_nth_drop_Suc)
    show ?thesis
      using False il Suc by (simp add: go_slice_one tk before_last_def after_last_def dr)
  qed
qed

lemma scan_ip_port_all:
  "scan_ip_port tok (length tok) =
     Inr (if CHR '':'' \<in> set tok then (before_last CHR '':'' tok, after_last CHR '':'' tok)
          else ([], []))"
  using scan_ip_port_upto [of "length tok" tok] by simp

lemma strings_Split_not_Nil: "strings_Split s sep \<noteq> []"
  by (induction s) (auto split: list.splits)

lemma strings_Split_hd: "hd (strings_Split s sep) = takeWhile (\<lambda>c. c \<noteq> sep) s"
  by (induction s) (auto split: list.splits simp: strings_Split_not_Nil)

lemma strings_Split_tl:
  "sep \<in> set s \<Longrightarrow> tl (strings_Split s sep) = strings_Split (tl (dropWhile (\<lambda>c. c \<noteq> sep) s)) sep"
  by (induction s) (auto split: list.splits simp: strings_Split_not_Nil)

lemma strings_Split_second:
  assumes "sep \<in> set s"
  shows "go_index (strings_Split s sep) 1 = Inr (second_field sep s)"
proof -
  obtain f fs where s: "strings_Split s sep = f # fs"
    using strings_Split_not_Nil [of s sep] by (cases "strings_Split s sep") auto
  have fs: "fs = strings_Split (tl (dropWhile (\<lambda>c. c \<noteq> sep) s)) sep"
    using strings_Split_tl [OF assms] s by simp
  have "fs \<noteq> []"
    unfolding fs by (rule strings_Split_not_Nil)
  then obtain g gs where g: "fs = g # gs" by (cases fs) auto
  have "g = hd fs" using g by simp
  then have "g = second_field sep s"
    unfolding fs strings_Split_hd second_field_def .
  then show ?thesis by (simp add: go_index_def s g)
qed

section \<open>The log grammar: relevance and parsing\<close>

lemma fqdnSuffix_occurrence:
  assumes "strings_Index t fqdnSuffix = Some si"
  shows "si < length t" "t ! si = CHR ''.''"
proof -
  from strings_Index_SomeD [OF assms]
  have a: "si + length fqdnSuffix \<le> length t" and b: "take (length fqdnSuffix) (drop si t) = fqdnSuffix"
    by simp_all
  from a show l: "si < length t" by (simp add: fqdnSuffix_def)
  have "drop si t = t ! si # drop (Suc si) t" using l by (simp add: Cons_nth_drop_Suc)
  with b show "t ! si = CHR ''.''" by (simp add: fqdnSuffix_def)
qed

lemma parseLogMsg_by_rules:
  assumes "relevantLogMsg rawText"
  shows "\<exists>si. strings_Index rawText fqdnSuffix = Some si \<and>
     parseLogMsg rawText = Inr (parse_by_rules rawText si)"
proof -
  from assms obtain si where si: "strings_Index rawText fqdnSuffix = Some si"
    by (auto simp: relevantLogMsg_def strings_Contains_def)
  note occ = fqdnSuffix_occurrence [OF si]
  have sc: "scan_fqdn rawText si si =
     Inr (if CHR '' '' \<in> set (take si rawText) then after_last CHR '' '' (take si rawText) else [])"
    using occ by (intro scan_fqdn_start) simp_all
  have "parseLogMsg rawText = Inr (parse_by_rules rawText si)"
  proof (cases "CHR '' '' \<in> set (take si rawText) \<and> after_last CHR '' '' (take si rawText) \<noteq> []")
    case False
    then show ?thesis
      using assms si sc by (auto simp: parseLogMsg_def parse_by_rules_def Let_def)
  next
    case True
    then have "CHR '' '' \<in> set rawText" by (meson in_set_takeD)
    then have sp: "go_index (strings_Split rawText CHR '' '') 1 = Inr (second_field CHR '' '' rawText)"
      by (rule strings_Split_second)
    show ?thesis
      using assms si sc True sp
      by (auto simp: parseLogMsg_def parse_by_rules_def scan_ip_port_all Let_def)
  qed
  with si show ?thesis by blast
qed

text \<open>No slice or index of \<open>parseLogMsg\<close> is ever out of range.\<close>

lemma parseLogMsg_no_panic: "\<exists>res. parseLogMsg t = Inr res"
proof (cases "relevantLogMsg t")
  case True
  from parseLogMsg_by_rules [OF this] show ?thesis by blast
next
  case False
  then show ?thesis by (simp add: parseLogMsg_def)
qed

text \<open>
  C6: a raw line is relevant if and only if it begins with \<open>[INFO]\<close>, contains the FQDN
  suffix \<open>.svc.cluster.local.\<close>, contains \<open>NOERROR\<close> and contains a colon; so a line that
  lacks any one of the four is rejected.
\<close>

theorem relevantLogMsg_iff:
  "relevantLogMsg rawText \<longleftrightarrow>
     (\<exists>rest. rawText = ''[INFO]'' @ rest) \<and>
     (\<exists>a b. rawText = a @ ''.svc.cluster.local.'' @ b) \<and>
     (\<exists>a b. rawText = a @ ''NOERROR'' @ b) \<and>
     (\<exists>a b. rawText = a @ '':'' @ b)"
  unfolding relevantLogMsg_def strings_HasPrefix_iff strings_Contains_iff fqdnSuffix_def ..

text \<open>
  Scenario A is relevant; Scenario B (\<open>NXDOMAIN\<close> for \<open>NOERROR\<close>) and the variants of
  Scenario A without the \<open>[INFO]\<close> prefix, without the suffix and without a colon are not.
\<close>

lemma relevantLogMsg_samples:
  "relevantLogMsg scenarioA" "\<not> relevantLogMsg scenarioB" "\<not> relevantLogMsg lineNoPrefix"
  "\<not> relevantLogMsg lineNoSuffix" "\<not> relevantLogMsg lineNoColon"
  by code_simp+

text \<open>
  C5, as the code has it: on a relevant line, with \<open>si\<close> the start of the first occurrence
  of the suffix, \<open>parseLogMsg\<close> never panics and yields \<open>parse_by_rules\<close>. The hostname is the
  text between the nearest space character before \<open>si\<close> and \<open>si\<close>, followed by the suffix;
  the error "FQDN not found" is returned when no space precedes \<open>si\<close> and also when that
  text is empty. IP and port are the parts before and after the last colon of the second
  of the fields that single spaces delimit; the error "pod ip not found" is returned when
  that field has no colon or nothing before it, "pod port not found" when nothing follows
  it. The Scenario A line parses to source IP \<open>10.42.2.90\<close>, source port \<open>59003\<close> and
  hostname \<open>user-db.sock-shop.svc.cluster.local.\<close>
\<close>

theorem parseLogMsg_relevant:
  "(relevantLogMsg rawText \<longrightarrow>
      (\<exists>si. strings_Index rawText fqdnSuffix = Some si \<and>
            parseLogMsg rawText = Inr (parse_by_rules rawText si))) \<and>
   parseLogMsg scenarioA =
     Inr (Parsed \<lparr>FromIP = ''10.42.2.90'', ToHostname = ''user-db.sock-shop.svc.cluster.local.'',
                  Status = [], FromPort = ''59003''\<rparr>)"
proof
  show "relevantLogMsg rawText \<longrightarrow>
      (\<exists>si. strings_Index rawText fqdnSuffix = Some si \<and>
            parseLogMsg rawText = Inr (parse_by_rules rawText si))"
    using parseLogMsg_by_rules by blast
  show "parseLogMsg scenarioA =
     Inr (Parsed \<lparr>FromIP = ''10.42.2.90'', ToHostname = ''user-db.sock-shop.svc.cluster.local.'',
                  Status = [], FromPort = ''59003''\<rparr>)"
    by code_simp
qed

text \<open>
  Only the space character delimits. A tab before the queried name is not a delimiter, so
  the hostname reaches back to the space before \<open>IN\<close>; and two spaces after the tag make
  the second field the empty string.
\<close>

lemma parseLogMsg_space_is_the_delimiter:
  "parseLogMsg tabLine =
     Inr (Parsed \<lparr>FromIP = ''10.42.2.90'',
                  ToHostname = ''IN'' @ [CHR 0x09] @ ''user-db.sock-shop.svc.cluster.local.'',
                  Status = [], FromPort = ''59003''\<rparr>)"
  "parseLogMsg doubleSpaceLine = Inr (Failed (PodIPNotFound doubleSpaceLine))"
  by code_simp+

text \<open>The theorem at a relevant line whose second field ends in its colon.\<close>

theorem parseLogMsg_relevant_witness:
  "relevantLogMsg noPortLine \<and> strings_Index noPortLine fqdnSuffix = Some 49 \<and>
   parse_by_rules noPortLine 49 = Failed (PodPortNotFound noPortLine) \<and>
   parseLogMsg noPortLine = Inr (Failed (PodPortNotFound noPortLine))"
proof -
  have r: "relevantLogMsg noPortLine" by code_simp
  have i: "strings_Index noPortLine fqdnSuffix = Some 49" by code_simp
  have p: "parse_by_rules noPortLine 49 = Failed (PodPortNotFound noPortLine)" by code_simp
  from parseLogMsg_relevant [of noPortLine] r i
  have "parseLogMsg noPortLine = Inr (parse_by_rules noPortLine 49)" by auto
  with r i p show ?thesis by simp
qed

text \<open>
  C5 as stated fails on a relevant line in which a space stands immediately before the
  suffix occurrence (index 36, the suffix starting at 37): whitespace does precede the
  suffix, and the rule of the claim would give the hostname \<open>.svc.cluster.local.\<close>, but
  the code returns the error "FQDN not found".
\<close>

theorem parseLogMsg_empty_host_counterexample:
  "relevantLogMsg emptyHostLine \<and> strings_Index emptyHostLine fqdnSuffix = Some 37 \<and>
   emptyHostLine ! 36 = CHR '' '' \<and>
   parseLogMsg emptyHostLine = Inr (Failed (FQDNNotFound emptyHostLine))"
  by code_simp

section \<open>The service FQDNs of the target\<close>

text \<open>
  Every service contributes one copy of itself per selector entry that the loop visits
  before the first mismatch.
\<close>

lemma selector_loop_copies:
  "selector_loop labels s kvs acc =
     acc @ replicate (length (takeWhile (\<lambda>kv. go_map_get labels (fst kv) = snd kv) kvs)) s"
proof (induction kvs arbitrary: acc)
  case Nil
  then show ?case by simp
next
  case (Cons kv kvs)
  obtain k v where kv: "kv = (k, v)" by (cases kv)
  show ?case
    by (simp add: kv Cons.IH replicate_app_Cons_same)
qed

lemma services_loop_copies:
  "services_loop labels ss acc =
     acc @ concat (map (\<lambda>s. replicate
       (length (takeWhile (\<lambda>kv. go_map_get labels (fst kv) = snd kv) (go_map_range (svc_Selector s)))) s) ss)"
  by (induction ss arbitrary: acc) (simp_all add: selector_loop_copies)

text \<open>
  C1 at concrete inputs. The pod has the labels \<open>name: user-db\<close> and \<open>tier: db\<close>. A service
  that selects it by both labels yields its FQDN twice, in either order of iteration over
  the selector; a service with the selector \<open>name: user-db\<close>, \<open>tier: cache\<close>, which the pod
  does not match, still yields its FQDN when \<open>name\<close> is visited first.
\<close>

theorem findToPodServiceFQDNs_repeats:
  "findToPodServiceFQDNs userDbPod (Inr [userDbService]) =
     Inr [''user-db.sock-shop.svc.cluster.local.'', ''user-db.sock-shop.svc.cluster.local.''] \<and>
   findToPodServiceFQDNs userDbPod
       (Inr [userDbService\<lparr>svc_Selector := Some [(''tier'', ''db''), (''name'', ''user-db'')]\<rparr>]) =
     Inr [''user-db.sock-shop.svc.cluster.local.'', ''user-db.sock-shop.svc.cluster.local.''] \<and>
   findToPodServiceFQDNs userDbPod (Inr [cacheService]) =
     Inr [''user-cache.sock-shop.svc.cluster.local.'']"
  by (simp add: findToPodServiceFQDNs_def userDbPod_def userDbService_def cacheService_def
      go_map_range_def go_map_get_def service_fqdn_def)

section \<open>Harvesting stops at the first parse error\<close>

lemma scan_loop_ok:
  "list_all (\<lambda>t. \<not> parse_fails t) ls \<Longrightarrow> scan_loop ls acc = Inr (acc @ parsed_events ls)"
proof (induction ls arbitrary: acc)
  case Nil
  then show ?case by (simp add: parsed_events_def)
next
  case (Cons t ts)
  obtain res where res: "parseLogMsg t = Inr res" using parseLogMsg_no_panic by blast
  from Cons.prems have ok: "\<not> parse_fails t" and rest: "list_all (\<lambda>t. \<not> parse_fails t) ts" by simp_all
  have pe: "parsed_events (t # ts) = (case res of Parsed c \<Rightarrow> [c] | _ \<Rightarrow> []) @ parsed_events ts"
    by (simp add: parsed_events_def res)
  show ?case
    using ok res Cons.IH [OF rest]
    by (cases res) (simp_all add: pe parse_fails_def)
qed

lemma scan_loop_fail:
  "list_all (\<lambda>t. \<not> parse_fails t) pre \<Longrightarrow> parseLogMsg t = Inr (Failed err) \<Longrightarrow>
   scan_loop (pre @ t # post) acc = Inl (Returned (ParseError err))"
proof (induction pre arbitrary: acc)
  case Nil
  then show ?case by simp
next
  case (Cons u us)
  obtain res where res: "parseLogMsg u = Inr res" using parseLogMsg_no_panic by blast
  from Cons.prems have ok: "\<not> parse_fails u" and rest: "list_all (\<lambda>t. \<not> parse_fails t) us" by simp_all
  show ?case
    using ok res Cons.IH [OF rest Cons.prems(2)]
    by (cases res) (simp_all add: parse_fails_def)
qed

lemma parsed_events_append: "parsed_events (xs @ ys) = parsed_events xs @ parsed_events ys"
  by (simp add: parsed_events_def)

lemma pods_loop_ok:
  "list_all (\<lambda>t. \<not> parse_fails t) (concat lss) \<Longrightarrow>
   pods_loop (map (\<lambda>ls. Stream ls False) lss @ rest) acc =
     pods_loop rest (acc @ parsed_events (concat lss))"
proof (induction lss arbitrary: acc)
  case Nil
  then show ?case by (simp add: parsed_events_def)
next
  case (Cons ls lss)
  from Cons.prems have a: "list_all (\<lambda>t. \<not> parse_fails t) ls"
    and b: "list_all (\<lambda>t. \<not> parse_fails t) (concat lss)" by simp_all
  show ?case
    by (simp add: scan_loop_ok [OF a] Cons.IH [OF b] parsed_events_append)
qed

text \<open>
  C3, as the code has it: the sources are streams that open and scan without error. When
  no line of any source fails to parse, the events of all relevant lines are returned, in
  the order of the sources and of their lines. Otherwise the first line on which parsing
  fails ends the harvest: its error is returned, and no events are.
\<close>

theorem parseConnectionLogs_first_error:
  "(list_all (\<lambda>t. \<not> parse_fails t) (concat lss) \<longrightarrow>
      parseConnectionLogs (map (\<lambda>ls. Stream ls False) lss) = Inr (parsed_events (concat lss))) \<and>
   (list_all (\<lambda>t. \<not> parse_fails t) (concat before @ pre) \<and> parseLogMsg t = Inr (Failed err) \<longrightarrow>
      parseConnectionLogs (map (\<lambda>ls. Stream ls False) before @ Stream (pre @ t # post) scanErr # after) =
        Inl (Returned (ParseError err)))"
proof (intro conjI impI)
  assume "list_all (\<lambda>t. \<not> parse_fails t) (concat lss)"
  from pods_loop_ok [OF this, of "[]" "[]"]
  show "parseConnectionLogs (map (\<lambda>ls. Stream ls False) lss) = Inr (parsed_events (concat lss))"
    by (simp add: parseConnectionLogs_def)
next
  assume a: "list_all (\<lambda>t. \<not> parse_fails t) (concat before @ pre) \<and> parseLogMsg t = Inr (Failed err)"
  then have b: "list_all (\<lambda>t. \<not> parse_fails t) (concat before)"
    and p: "list_all (\<lambda>t. \<not> parse_fails t) pre" and f: "parseLogMsg t = Inr (Failed err)"
    by simp_all
  show "parseConnectionLogs (map (\<lambda>ls. Stream ls False) before @ Stream (pre @ t # post) scanErr # after) =
        Inl (Returned (ParseError err))"
    by (simp add: parseConnectionLogs_def pods_loop_ok [OF b] scan_loop_fail [OF p f])
qed

text \<open>Both parts of the theorem on streams made of the sample lines.\<close>

theorem parseConnectionLogs_first_error_witness:
  "list_all (\<lambda>t. \<not> parse_fails t) (concat [[scenarioB, scenarioA], [scenarioA]]) \<and>
   parseConnectionLogs [Stream [scenarioB, scenarioA] False, Stream [scenarioA] False] =
     Inr [scenarioA_event, scenarioA_event] \<and>
   list_all (\<lambda>t. \<not> parse_fails t) (concat [[scenarioA]] @ [scenarioB]) \<and>
   parseLogMsg noPortLine = Inr (Failed (PodPortNotFound noPortLine)) \<and>
   parseConnectionLogs [Stream [scenarioA] False, Stream [scenarioB, noPortLine, scenarioA] False,
                        Stream [scenarioA] False] =
     Inl (Returned (ParseError (PodPortNotFound noPortLine)))"
proof -
  have a: "list_all (\<lambda>t. \<not> parse_fails t) (concat [[scenarioB, scenarioA], [scenarioA]])"
    by code_simp
  have e: "parsed_events (concat [[scenarioB, scenarioA], [scenarioA]]) = [scenarioA_event, scenarioA_event]"
    by code_simp
  have b: "list_all (\<lambda>t. \<not> parse_fails t) (concat [[scenarioA]] @ [scenarioB])"
    by code_simp
  have f: "parseLogMsg noPortLine = Inr (Failed (PodPortNotFound noPortLine))"
    by code_simp
  from parseConnectionLogs_first_error
    [of "[[scenarioB, scenarioA], [scenarioA]]" "[[scenarioA]]" "[scenarioB]" noPortLine
        "PodPortNotFound noPortLine" "[scenarioA]" False "[Stream [scenarioA] False]"]
  show ?thesis using a b e f by simp
qed

text \<open>
  C3 as stated fails: Scenario A parses, the second line of the first source does not, and
  the harvest returns that error instead of the events of the three well-formed lines.
\<close>

theorem parseConnectionLogs_fatal_counterexample:
  "parseLogMsg scenarioA = Inr (Parsed scenarioA_event) \<and>
   parseLogMsg noPortLine = Inr (Failed (PodPortNotFound noPortLine)) \<and>
   parseConnectionLogs [Stream [scenarioA, noPortLine, scenarioA] False, Stream [scenarioA] False] =
     Inl (Returned (ParseError (PodPortNotFound noPortLine)))"
  by code_simp

section \<open>The segments of the correlation phase\<close>

declare segments_loop.simps [simp del]

lemma sdiv_nonneg: "0 \<le> l \<Longrightarrow> 1 \<le> c \<Longrightarrow> (l::int) sdiv c = l div c"
  by (cases "l = 0") (simp_all add: signed_divide_int_def)

lemma smod_nonneg: "0 \<le> l \<Longrightarrow> 1 \<le> c \<Longrightarrow> (l::int) smod c = l mod c"
  by (cases "l = 0") (simp_all add: signed_modulo_int_def)

lemma segments_loop_chunks:
  assumes "1 \<le> c" "int n * c \<le> int (length xs)"
  shows "i \<le> n \<Longrightarrow> segments_loop (int i) (int n) c xs acc = Inr (acc @ map (chunk (nat c) xs) [i..<n])"
proof (induction "n - i" arbitrary: i acc)
  case 0
  then have "i = n" by simp
  then show ?case by (subst segments_loop.simps) simp
next
  case (Suc d)
  then have lt: "i < n" by simp
  have "int (Suc i) * c \<le> int n * c" using lt assms(1) by (intro mult_right_mono) simp_all
  then have bound: "(int i + 1) * c \<le> int (length xs)" using assms(2) by (simp add: add.commute)
  have lo: "0 \<le> int i * c" using assms(1) by simp
  have le: "int i * c \<le> (int i + 1) * c" using assms(1) by (simp add: algebra_simps)
  have d: "(int i + 1) * c - int i * c = c" by (simp add: algebra_simps)
  have n: "nat (int i * c) = i * nat c" using assms(1) by (simp add: nat_mult_distrib)
  have sl: "go_slice_int xs (int i * c) ((int i + 1) * c) = Inr (chunk (nat c) xs i)"
    using lo le bound by (simp add: go_slice_int_def d n chunk_def)
  have ih: "segments_loop (int (Suc i)) (int n) c xs (acc @ [chunk (nat c) xs i]) =
      Inr ((acc @ [chunk (nat c) xs i]) @ map (chunk (nat c) xs) [Suc i..<n])"
    using Suc lt by (intro Suc.hyps(1)) simp_all
  have up: "[i..<n] = i # [Suc i..<n]" using lt by (simp add: upt_conv_Cons)
  have "segments_loop (int i) (int n) c xs acc =
      segments_loop (int i + 1) (int n) c xs (acc @ [chunk (nat c) xs i])"
    using lt by (subst segments_loop.simps) (simp add: sl)
  also have "\<dots> = Inr ((acc @ [chunk (nat c) xs i]) @ map (chunk (nat c) xs) [Suc i..<n])"
    using ih by (simp add: add.commute)
  finally show ?case by (simp add: up)
qed

lemma concat_chunks: "concat (map (chunk n xs) [0..<k]) = take (k * n) xs"
proof (induction k)
  case 0
  then show ?case by simp
next
  case (Suc k)
  have "Suc k * n = k * n + n" by simp
  then have "take (Suc k * n) xs = take (k * n) xs @ take n (drop (k * n) xs)"
    by (simp only: take_add)
  with Suc show ?case by (simp add: chunk_def)
qed

lemma segments_of_positive:
  assumes "1 \<le> c"
  shows "segments_of c xs =
     Inr (map (chunk (nat c) xs) [0..<length xs div nat c] @
          (if length xs mod nat c = 0 then [] else [drop (length xs - length xs mod nat c) xs]))"
proof -
  let ?l = "int (length xs)"
  let ?n = "length xs div nat c"
  let ?m = "length xs mod nat c"
  have c0: "c \<noteq> 0" using assms by simp
  have dv: "?l sdiv c = int ?n"
    using assms by (simp add: sdiv_nonneg zdiv_int)
  have md: "?l smod c = int ?m"
    using assms by (simp add: smod_nonneg zmod_int)
  have c': "int (nat c) = c" using assms by simp
  have "?n * nat c \<le> length xs" by simp
  then have "int (?n * nat c) \<le> ?l" by (rule of_nat_mono)
  then have b: "int ?n * c \<le> ?l" by (simp only: of_nat_mult c')
  have lp: "segments_loop 0 (int ?n) c xs [] = Inr (map (chunk (nat c) xs) [0..<?n])"
    using segments_loop_chunks [OF assms b, of 0 "[]"] by simp
  have ml: "?m \<le> length xs" by (rule mod_less_eq_dividend)
  have sl: "go_slice_int xs (?l - int ?m) ?l = Inr (drop (length xs - ?m) xs)"
    using ml by (simp add: go_slice_int_def nat_diff_distrib' of_nat_diff [symmetric] del: of_nat_diff)
  show ?thesis
    by (simp add: segments_of_def c0 dv md lp sl Let_def del: of_nat_diff)
qed

lemma segments_of_cover:
  assumes "1 \<le> c"
  shows "\<exists>segs. segments_of c xs = Inr segs \<and> concat segs = xs"
proof -
  let ?n = "length xs div nat c"
  let ?m = "length xs mod nat c"
  have e: "length xs - ?m = ?n * nat c" by (simp add: minus_mod_eq_div_mult)
  have "concat (map (chunk (nat c) xs) [0..<?n] @
          (if ?m = 0 then [] else [drop (length xs - ?m) xs])) = xs"
  proof (cases "?m = 0")
    case True
    then have "?n * nat c = length xs" using e by simp
    then show ?thesis using True by (simp add: concat_chunks)
  next
    case False
    then show ?thesis by (simp add: concat_chunks e)
  qed
  then show ?thesis using segments_of_positive [OF assms, of xs] by simp
qed

lemma sdiv_neg_divisor: "0 \<le> l \<Longrightarrow> c < 0 \<Longrightarrow> (l::int) sdiv c \<le> 0"
  by (cases "l = 0") (simp_all add: signed_divide_int_def pos_imp_zdiv_nonneg_iff)

lemma smod_neg_divisor: "0 \<le> l \<Longrightarrow> c < 0 \<Longrightarrow> (l::int) smod c = l mod (- c)"
  by (cases "l = 0") (simp_all add: signed_modulo_int_def)

lemma segments_of_negative_factor:
  assumes "c < 0"
  shows "segments_of c xs =
     Inr (if length xs mod nat (- c) = 0 then []
          else [drop (length xs - length xs mod nat (- c)) xs])"
proof -
  let ?l = "int (length xs)"
  let ?m = "length xs mod nat (- c)"
  have c0: "c \<noteq> 0" using assms by simp
  have dv: "?l sdiv c \<le> 0" using assms by (intro sdiv_neg_divisor) simp_all
  have lp: "segments_loop 0 (?l sdiv c) c xs [] = Inr []"
    using dv by (subst segments_loop.simps) simp
  have md: "?l smod c = int ?m"
    using assms by (simp add: smod_neg_divisor zmod_int)
  have ml: "?m \<le> length xs" by (rule mod_less_eq_dividend)
  have sl: "go_slice_int xs (?l - int ?m) ?l = Inr (drop (length xs - ?m) xs)"
    using ml by (simp add: go_slice_int_def nat_diff_distrib' of_nat_diff [symmetric] del: of_nat_diff)
  show ?thesis
    by (simp add: segments_of_def c0 md lp sl Let_def del: of_nat_diff)
qed

lemma segments_of_negative_cover:
  assumes "c < 0" "segments_of c xs = Inr segs"
  shows "concat segs = xs \<longleftrightarrow> int (length xs) < - c"
proof -
  let ?n = "nat (- c)"
  let ?m = "length xs mod ?n"
  have n: "0 < ?n" using assms(1) by simp
  have segs: "segs = (if ?m = 0 then [] else [drop (length xs - ?m) xs])"
    using segments_of_negative_factor [OF assms(1), of xs] assms(2) by simp
  have lt: "int (length xs) < - c \<longleftrightarrow> length xs < ?n" using assms(1) by linarith
  show ?thesis
  proof (cases "length xs < ?n")
    case True
    then have "?m = length xs" by simp
    then show ?thesis using True lt by (cases "xs = []") (simp_all add: segs)
  next
    case False
    then have ge: "?n \<le> length xs" by simp
    have "concat segs \<noteq> xs"
    proof (cases "?m = 0")
      case True
      with ge n show ?thesis by (auto simp: segs)
    next
      case m: False
      have "?m < ?n" using n by simp
      with ge have "0 < length xs - ?m" by simp
      then have "length (drop (length xs - ?m) xs) < length xs" using ge n by simp
      then have "drop (length xs - ?m) xs \<noteq> xs" by (metis less_irrefl)
      with m show ?thesis by (simp add: segs)
    qed
    with False lt show ?thesis by simp
  qed
qed

lemma segments_of_zero: "segments_of 0 xs = Inl DivideByZero"
  by (simp add: segments_of_def)

lemma segments_of_shape:
  assumes "1 \<le> c" "segments_of c xs = Inr segs"
  shows "length segs = length xs div nat c + (if length xs mod nat c = 0 then 0 else 1)"
    and "k < length xs div nat c \<Longrightarrow> length (segs ! k) = nat c"
    and "length xs mod nat c \<noteq> 0 \<Longrightarrow> length (last segs) = length xs mod nat c"
proof -
  let ?n = "length xs div nat c"
  let ?m = "length xs mod nat c"
  have segs: "segs = map (chunk (nat c) xs) [0..<?n] @
          (if ?m = 0 then [] else [drop (length xs - ?m) xs])"
    using segments_of_positive [OF assms(1), of xs] assms(2) by simp
  show "length segs = ?n + (if ?m = 0 then 0 else 1)"
    by (simp add: segs)
  show "length (last segs) = ?m" if "?m \<noteq> 0"
    using that by (simp add: segs)
  show "length (segs ! k) = nat c" if k: "k < ?n"
  proof -
    have "segs ! k = chunk (nat c) xs k"
      using k by (simp add: segs nth_append)
    moreover have "Suc k * nat c \<le> ?n * nat c" using k by (intro mult_le_mono1) simp
    then have "Suc k * nat c \<le> length xs"
      by (rule le_trans) (rule div_times_less_eq_dividend)
    then have "nat c \<le> length xs - k * nat c" by simp
    ultimately show ?thesis by (simp add: chunk_def min_absorb2)
  qed
qed

lemma processConnectionLogs_zero:
  assumes "concurrency r = 0"
  shows "processConnectionLogs r out \<longleftrightarrow> out = Inl DivideByZero"
proof
  assume "processConnectionLogs r out"
  then show "out = Inl DivideByZero"
    using assms by cases (simp_all add: segments_of_zero)
next
  assume "out = Inl DivideByZero"
  moreover have "processConnectionLogs r (Inl DivideByZero)"
    by (rule processConnectionLogs.cut_panics) (simp add: assms segments_of_zero)
  ultimately show "processConnectionLogs r out" by simp
qed

text \<open>
  C9, as the code has it. For a concurrency factor \<open>c \<ge> 1\<close> the segments are cut without a
  panic and are \<open>l div c\<close> segments of length \<open>c\<close> followed, when \<open>l mod c\<close> is not zero, by
  one segment of length \<open>l mod c\<close>; concatenated they are the event list. For \<open>c = 0\<close> the
  division panics for every event list, the empty one included, and a panic is then the
  only outcome of \<open>processConnectionLogs\<close>. For \<open>c < 0\<close> nothing panics: the truncated
  quotient is not positive, so no full segment is cut, and the remainder segment holds the
  last \<open>l mod |c|\<close> events. So the cut is total exactly when \<open>c\<close> is not zero, and its
  segments cover the list exactly when \<open>c \<ge> 1\<close>, or \<open>c < 0\<close> and \<open>l < |c|\<close>.
\<close>

theorem segments_of_by_factor:
  "(1 \<le> c \<longrightarrow>
      (\<exists>segs. segments_of c xs = Inr segs \<and> concat segs = xs \<and>
         length segs = length xs div nat c + (if length xs mod nat c = 0 then 0 else 1) \<and>
         (\<forall>k < length xs div nat c. length (segs ! k) = nat c) \<and>
         (length xs mod nat c \<noteq> 0 \<longrightarrow> length (last segs) = length xs mod nat c))) \<and>
   segments_of 0 xs = Inl DivideByZero \<and>
   segments_of 0 ([] :: 'a list) = Inl DivideByZero \<and>
   (concurrency r = 0 \<longrightarrow> (processConnectionLogs r out \<longleftrightarrow> out = Inl DivideByZero)) \<and>
   (c < 0 \<longrightarrow>
      segments_of c xs =
        Inr (if length xs mod nat (- c) = 0 then []
             else [drop (length xs - length xs mod nat (- c)) xs])) \<and>
   ((\<exists>segs. segments_of c xs = Inr segs) \<longleftrightarrow> c \<noteq> 0) \<and>
   ((\<exists>segs. segments_of c xs = Inr segs \<and> concat segs = xs) \<longleftrightarrow>
      1 \<le> c \<or> (c < 0 \<and> int (length xs) < - c))"
proof (intro conjI)
  show "1 \<le> c \<longrightarrow>
      (\<exists>segs. segments_of c xs = Inr segs \<and> concat segs = xs \<and>
         length segs = length xs div nat c + (if length xs mod nat c = 0 then 0 else 1) \<and>
         (\<forall>k < length xs div nat c. length (segs ! k) = nat c) \<and>
         (length xs mod nat c \<noteq> 0 \<longrightarrow> length (last segs) = length xs mod nat c))"
  proof
    assume c: "1 \<le> c"
    from segments_of_cover [OF c, of xs] obtain segs
      where s: "segments_of c xs = Inr segs" "concat segs = xs" by blast
    from segments_of_shape [OF c s(1)] s show "\<exists>segs. segments_of c xs = Inr segs \<and> concat segs = xs \<and>
         length segs = length xs div nat c + (if length xs mod nat c = 0 then 0 else 1) \<and>
         (\<forall>k < length xs div nat c. length (segs ! k) = nat c) \<and>
         (length xs mod nat c \<noteq> 0 \<longrightarrow> length (last segs) = length xs mod nat c)"
      by blast
  qed
  show "segments_of 0 xs = Inl DivideByZero" by (rule segments_of_zero)
  show "segments_of 0 ([] :: 'a list) = Inl DivideByZero" by (rule segments_of_zero)
  show "concurrency r = 0 \<longrightarrow> (processConnectionLogs r out \<longleftrightarrow> out = Inl DivideByZero)"
    using processConnectionLogs_zero by blast
  show "c < 0 \<longrightarrow>
      segments_of c xs =
        Inr (if length xs mod nat (- c) = 0 then []
             else [drop (length xs - length xs mod nat (- c)) xs])"
    using segments_of_negative_factor by blast
  show "(\<exists>segs. segments_of c xs = Inr segs) \<longleftrightarrow> c \<noteq> 0"
  proof
    assume "\<exists>segs. segments_of c xs = Inr segs"
    then show "c \<noteq> 0" by (auto simp: segments_of_zero)
  next
    assume "c \<noteq> 0"
    then consider "1 \<le> c" | "c < 0" by linarith
    then show "\<exists>segs. segments_of c xs = Inr segs"
    proof cases
      case 1
      then show ?thesis using segments_of_cover [of c xs] by blast
    next
      case 2
      then show ?thesis by (simp add: segments_of_negative_factor)
    qed
  qed
  show "(\<exists>segs. segments_of c xs = Inr segs \<and> concat segs = xs) \<longleftrightarrow>
      1 \<le> c \<or> (c < 0 \<and> int (length xs) < - c)"
  proof
    assume "\<exists>segs. segments_of c xs = Inr segs \<and> concat segs = xs"
    then obtain segs where s: "segments_of c xs = Inr segs" "concat segs = xs" by blast
    then have "c \<noteq> 0" by (auto simp: segments_of_zero)
    then consider "1 \<le> c" | "c < 0" by linarith
    then show "1 \<le> c \<or> (c < 0 \<and> int (length xs) < - c)"
    proof cases
      case 1
      then show ?thesis by simp
    next
      case 2
      with segments_of_negative_cover [OF 2 s(1)] s(2) show ?thesis by simp
    qed
  next
    assume "1 \<le> c \<or> (c < 0 \<and> int (length xs) < - c)"
    then show "\<exists>segs. segments_of c xs = Inr segs \<and> concat segs = xs"
    proof
      assume "1 \<le> c"
      then show ?thesis by (rule segments_of_cover)
    next
      assume n: "c < 0 \<and> int (length xs) < - c"
      then obtain segs where s: "segments_of c xs = Inr segs"
        by (simp add: segments_of_negative_factor)
      with segments_of_negative_cover [OF _ s] n show ?thesis by blast
    qed
  qed
qed

text \<open>
  Five events with the factor 2, a runner with the factor 0, and three events with the
  factor \<open>-2\<close>.
\<close>

theorem segments_of_by_factor_witness:
  "(1::int) \<le> 2 \<and>
   segments_of 2 [1, 2, 3, 4, 5 :: nat] = Inr [[1, 2], [3, 4], [5]] \<and>
   (\<exists>segs. segments_of 2 [1, 2, 3, 4, 5 :: nat] = Inr segs \<and> concat segs = [1, 2, 3, 4, 5] \<and>
      length segs = 3 \<and> length (segs ! 0) = 2 \<and> length (segs ! 1) = 2 \<and> length (last segs) = 1) \<and>
   concurrency (sockShopRunner\<lparr>concurrency := 0\<rparr>) = 0 \<and>
   processConnectionLogs (sockShopRunner\<lparr>concurrency := 0\<rparr>) (Inl DivideByZero) \<and>
   (- 2 :: int) < 0 \<and> segments_of (- 2) [1, 2, 3 :: nat] = Inr [[3]]"
proof -
  have e: "segments_of 2 [1, 2, 3, 4, 5 :: nat] = Inr [[1, 2], [3, 4], [5]]" by code_simp
  note t = segments_of_by_factor [of 2 "[1, 2, 3, 4, 5 :: nat]" "sockShopRunner\<lparr>concurrency := 0\<rparr>" "Inl DivideByZero"]
  from t obtain segs where s: "segments_of 2 [1, 2, 3, 4, 5 :: nat] = Inr segs"
    "concat segs = [1, 2, 3, 4, 5]" "length segs = 3" "\<forall>k < 2. length (segs ! k) = 2" "length (last segs) = 1"
    by auto
  from s(4) have "length (segs ! 0) = 2" "length (segs ! 1) = 2" by simp_all
  moreover have "concurrency (sockShopRunner\<lparr>concurrency := 0\<rparr>) = 0" by simp
  with t have "processConnectionLogs (sockShopRunner\<lparr>concurrency := 0\<rparr>) (Inl DivideByZero)"
    by blast
  moreover have "segments_of (- 2) [1, 2, 3 :: nat] = Inr [[3]]"
  proof -
    have "(- 2 :: int) < 0" by simp
    with segments_of_by_factor [of "- 2" "[1, 2, 3 :: nat]" sockShopRunner "Inl DivideByZero"]
    have "segments_of (- 2) [1, 2, 3 :: nat] =
        Inr (if length [1, 2, 3 :: nat] mod nat (- (- 2)) = 0 then []
             else [drop (length [1, 2, 3 :: nat] - length [1, 2, 3 :: nat] mod nat (- (- 2))) [1, 2, 3]])"
      by blast
    then show ?thesis by simp
  qed
  ultimately show ?thesis using e s by auto
qed

section \<open>The scan for the source IP\<close>

lemma addresses_loop_find:
  "addresses_loop fromIP eas =
     (case List.find (ends_scan fromIP) eas of
        None \<Rightarrow> Inr ([], [], False)
      | Some ea \<Rightarrow>
          (case ea_TargetRef ea of
             None \<Rightarrow> Inl NilDereference
           | Some ref \<Rightarrow> Inr (ref_Name ref, ref_Namespace ref, True)))"
  by (induction eas) (auto simp: ends_scan_def split: option.splits)

lemma addresses_loop_found:
  "addresses_loop fromIP eas = Inr (n, ns, found) \<Longrightarrow> found \<longleftrightarrow> List.find (ends_scan fromIP) eas \<noteq> None"
  by (auto simp: addresses_loop_find split: option.splits)

lemma find_append:
  "List.find P (xs @ ys) = (case List.find P xs of None \<Rightarrow> List.find P ys | Some x \<Rightarrow> Some x)"
  by (induction xs) auto

lemma addresses_loop_append:
  "addresses_loop fromIP (xs @ ys) =
     (case addresses_loop fromIP xs of
        Inl p \<Rightarrow> Inl p
      | Inr (n, ns, found) \<Rightarrow> if found then Inr (n, ns, found) else addresses_loop fromIP ys)"
  by (auto simp: addresses_loop_find find_append split: option.splits)

lemma subsets_loop_flat:
  "subsets_loop fromIP ess = addresses_loop fromIP (concat (map es_Addresses ess))"
  by (induction ess) (auto simp: addresses_loop_append split: sum.splits)

lemma endpoints_loop_flat:
  "endpoints_loop fromIP items = addresses_loop fromIP (addresses_of items)"
  by (induction items) (auto simp: addresses_of_def subsets_loop_flat addresses_loop_append split: sum.splits)

lemma namespaces_loop_flat:
  "list_all (\<lambda>n. eps n \<noteq> None) nss \<Longrightarrow>
   namespaces_loop eps fromIP nss =
     addresses_loop fromIP
       (concat (map (\<lambda>n. case eps n of None \<Rightarrow> [] | Some items \<Rightarrow> addresses_of items) nss))"
  by (induction nss) (auto simp: endpoints_loop_flat addresses_loop_append split: sum.splits)

lemma fqdns_loop_member:
  "fqdns_loop r c fs =
     (if ToHostname c \<in> set fs then
        (case namespaces_loop (allEndpoints r) (FromIP c) (allNamespaces r) of
           Inl p \<Rightarrow> Inl p
         | Inr (fromPodName, fromNs, found) \<Rightarrow>
             Inr (record_identity r (ToHostname c) fromPodName fromNs))
      else Inr r)"
  by (induction fs) auto

lemma processConnectionLog_scan:
  assumes "snapshot_complete r"
  shows "processConnectionLog r c =
     (if ToHostname c \<in> set (toPodServiceFQDNs r) then
        (case List.find (ends_scan (FromIP c)) (all_addresses r) of
           None \<Rightarrow> Inr (record_identity r (ToHostname c) [] [])
         | Some ea \<Rightarrow>
             (case ea_TargetRef ea of
                None \<Rightarrow> Inl NilDereference
              | Some ref \<Rightarrow> Inr (record_identity r (ToHostname c) (ref_Name ref) (ref_Namespace ref))))
      else Inr r)"
  using assms
  by (simp add: processConnectionLog_def fqdns_loop_member namespaces_loop_flat snapshot_complete_def
      all_addresses_def addresses_loop_find split: option.splits)

text \<open>
  C10, as the code has it, for a snapshot in which every listed namespace has its endpoints
  list. Processing an event returns whenever every endpoint address with the event's source
  IP carries a target reference; addresses with another IP never reach the dereference.
  Processing panics, with a nil dereference, exactly when the hostname of the event is one
  of the target's FQDNs and the first address in scan order that has the source IP and
  either no target reference or a target of kind \<open>Pod\<close> is one without a target reference.
\<close>

theorem processConnectionLog_nil_target:
  "snapshot_complete r \<longrightarrow>
     (list_all (\<lambda>ea. ea_IP ea \<noteq> FromIP c \<or> ea_TargetRef ea \<noteq> None) (all_addresses r) \<longrightarrow>
        (\<exists>r'. processConnectionLog r c = Inr r')) \<and>
     (processConnectionLog r c = Inl p \<longleftrightarrow>
        p = NilDereference \<and> ToHostname c \<in> set (toPodServiceFQDNs r) \<and>
        (\<exists>ea. List.find (ends_scan (FromIP c)) (all_addresses r) = Some ea \<and> ea_TargetRef ea = None))"
proof (intro impI conjI)
  assume sc: "snapshot_complete r"
  note scan = processConnectionLog_scan [OF sc, of c]
  show "processConnectionLog r c = Inl p \<longleftrightarrow>
        p = NilDereference \<and> ToHostname c \<in> set (toPodServiceFQDNs r) \<and>
        (\<exists>ea. List.find (ends_scan (FromIP c)) (all_addresses r) = Some ea \<and> ea_TargetRef ea = None)"
    by (auto simp: scan split: option.splits)
  assume ok: "list_all (\<lambda>ea. ea_IP ea \<noteq> FromIP c \<or> ea_TargetRef ea \<noteq> None) (all_addresses r)"
  show "\<exists>r'. processConnectionLog r c = Inr r'"
  proof (cases "List.find (ends_scan (FromIP c)) (all_addresses r)")
    case None
    then show ?thesis by (simp add: scan)
  next
    case (Some ea)
    then have "ea \<in> set (all_addresses r)" "ends_scan (FromIP c) ea"
      by (auto simp: find_Some_iff in_set_conv_nth)
    with ok have "ea_TargetRef ea \<noteq> None"
      by (auto simp: list_all_iff ends_scan_def)
    then show ?thesis using Some by (auto simp: scan)
  qed
qed

section \<open>Events on the sample snapshots\<close>

lemmas sample_defs = sockShopRunner_def userEvent_def ordersEvent_def strangerEvent_def userDbFQDN_def
  danglingLastRunner_def danglingFirstRunner_def userPodAddress_def danglingAddress_def
  userIdentity_def ordersIdentity_def userDiscovery_def ordersDiscovery_def
  repeatedCallerRunner_def twoCallersRunner_def repeatedCallerResult_def userFirstResult_def
  ordersFirstResult_def

text \<open>
  C2 at a concrete input: the event goes to the target's FQDN from an address that no
  endpoint has. The scan ends with \<open>found\<close> false, and the call still creates the entry of
  the hostname, appends an identity with an empty pod name and an empty namespace, and
  logs a discovery record for it.
\<close>

theorem processConnectionLog_unresolved_recorded:
  "namespaces_loop (allEndpoints sockShopRunner) (FromIP strangerEvent) (allNamespaces sockShopRunner) =
     Inr ([], [], False) \<and>
   processConnectionLog sockShopRunner strangerEvent =
     Inr (sockShopRunner
       \<lparr>hostnamePodMapping := [userDbFQDN \<mapsto> [\<lparr>podname = [], namespace = []\<rparr>]],
        infoLog := [\<lparr>d_pod = [], d_ns = [], d_svc = userDbFQDN\<rparr>]\<rparr>)"
  by (simp add: sample_defs processConnectionLog_def record_identity_def)

text \<open>
  C10 as stated fails: the snapshot has an address with the source IP of the event and no
  target reference, but the scan ends at the pod's address before it, and processing the
  event returns.
\<close>

theorem processConnectionLog_nil_target_counterexample:
  "snapshot_complete danglingLastRunner \<and>
   all_addresses danglingLastRunner = [userPodAddress, danglingAddress] \<and>
   ea_IP danglingAddress = FromIP userEvent \<and> ea_TargetRef danglingAddress = None \<and>
   processConnectionLog danglingLastRunner userEvent =
     Inr (danglingLastRunner\<lparr>hostnamePodMapping := [userDbFQDN \<mapsto> [userIdentity]],
                             infoLog := [userDiscovery]\<rparr>)"
  by (simp add: sample_defs processConnectionLog_def record_identity_def snapshot_complete_def
      all_addresses_def addresses_of_def)

text \<open>
  The theorem at a snapshot all of whose addresses carry a target reference, and at one in
  which the address without a target reference comes first.
\<close>

theorem processConnectionLog_nil_target_witness:
  "snapshot_complete sockShopRunner \<and>
   list_all (\<lambda>ea. ea_IP ea \<noteq> FromIP userEvent \<or> ea_TargetRef ea \<noteq> None) (all_addresses sockShopRunner) \<and>
   (\<exists>r'. processConnectionLog sockShopRunner userEvent = Inr r') \<and>
   snapshot_complete danglingFirstRunner \<and>
   ToHostname userEvent \<in> set (toPodServiceFQDNs danglingFirstRunner) \<and>
   List.find (ends_scan (FromIP userEvent)) (all_addresses danglingFirstRunner) = Some danglingAddress \<and>
   ea_TargetRef danglingAddress = None \<and>
   processConnectionLog danglingFirstRunner userEvent = Inl NilDereference"
proof -
  have a: "snapshot_complete sockShopRunner"
    by (simp add: sample_defs snapshot_complete_def)
  have b: "list_all (\<lambda>ea. ea_IP ea \<noteq> FromIP userEvent \<or> ea_TargetRef ea \<noteq> None) (all_addresses sockShopRunner)"
    by (simp add: sample_defs all_addresses_def addresses_of_def)
  have c: "snapshot_complete danglingFirstRunner"
    by (simp add: sample_defs snapshot_complete_def)
  have d: "ToHostname userEvent \<in> set (toPodServiceFQDNs danglingFirstRunner)"
    by (simp add: sample_defs)
  have e: "List.find (ends_scan (FromIP userEvent)) (all_addresses danglingFirstRunner) = Some danglingAddress"
    by (simp add: sample_defs all_addresses_def addresses_of_def ends_scan_def)
  have f: "ea_TargetRef danglingAddress = None" by (simp add: sample_defs)
  from processConnectionLog_nil_target [of sockShopRunner userEvent NilDereference] a b
  have g: "\<exists>r'. processConnectionLog sockShopRunner userEvent = Inr r'" by blast
  from processConnectionLog_nil_target [of danglingFirstRunner userEvent NilDereference] c d e f
  have h: "processConnectionLog danglingFirstRunner userEvent = Inl NilDereference" by blast
  from a b c d e f g h show ?thesis by blast
qed

section \<open>The dedup invariant\<close>

lemma podname_present_iff: "podname_present n ms \<longleftrightarrow> n \<in> set (map podname ms)"
  by (induction ms) auto

text \<open>What \<open>record_identity\<close> does to the entries and to the log.\<close>

lemma entries_record_identity:
  "entries (record_identity r h n ns) h' =
     (if h' = h \<and> n \<notin> set (map podname (entries r h))
      then entries r h @ [\<lparr>podname = n, namespace = ns\<rparr>] else entries r h')"
  by (auto simp: record_identity_def entries_def Let_def podname_present_iff split: option.splits)

lemma infoLog_record_identity:
  "infoLog (record_identity r h n ns) =
     (if n \<notin> set (map podname (entries r h))
      then infoLog r @ [\<lparr>d_pod = n, d_ns = ns, d_svc = h\<rparr>] else infoLog r)"
  by (auto simp: record_identity_def entries_def Let_def podname_present_iff split: option.splits)

lemma static_record_identity:
  "toPodServiceFQDNs (record_identity r h n ns) = toPodServiceFQDNs r"
  "allNamespaces (record_identity r h n ns) = allNamespaces r"
  "allEndpoints (record_identity r h n ns) = allEndpoints r"
  by (simp_all add: record_identity_def Let_def)

lemma dom_record_identity:
  "dom (hostnamePodMapping (record_identity r h n ns)) = insert h (dom (hostnamePodMapping r))"
  by (auto simp: record_identity_def Let_def)

lemma dedup_inv_record_identity:
  assumes "dedup_inv r"
  shows "dedup_inv (record_identity r h n ns)"
  using assms
  by (auto simp: dedup_inv_def entries_record_identity infoLog_record_identity identity_of_def)

text \<open>A call of \<open>processConnectionLog\<close> that returns leaves the runner or records one identity.\<close>

lemma processConnectionLog_cases:
  assumes "processConnectionLog r c = Inr r'"
  shows "(ToHostname c \<notin> set (toPodServiceFQDNs r) \<and> r' = r) \<or>
         (ToHostname c \<in> set (toPodServiceFQDNs r) \<and>
          (\<exists>n ns found. namespaces_loop (allEndpoints r) (FromIP c) (allNamespaces r) = Inr (n, ns, found) \<and>
             r' = record_identity r (ToHostname c) n ns))"
  using assms
  by (auto simp: processConnectionLog_def fqdns_loop_member split: if_splits sum.splits)

lemma static_processConnectionLog:
  assumes "processConnectionLog r c = Inr r'"
  shows "toPodServiceFQDNs r' = toPodServiceFQDNs r" "allNamespaces r' = allNamespaces r"
    "allEndpoints r' = allEndpoints r"
  using processConnectionLog_cases [OF assms] by (auto simp: static_record_identity)

lemma dedup_inv_processConnectionLog:
  assumes "dedup_inv r" "processConnectionLog r c = Inr r'"
  shows "dedup_inv r'"
  using processConnectionLog_cases [OF assms(2)] assms(1)
  by (auto simp: dedup_inv_record_identity)

lemma dedup_inv_process_in_order:
  "dedup_inv r \<Longrightarrow> process_in_order cs r = Inr r' \<Longrightarrow> dedup_inv r'"
proof (induction cs arbitrary: r)
  case Nil
  then show ?case by simp
next
  case (Cons c cs)
  from Cons.prems(2) obtain r1 where r1: "processConnectionLog r c = Inr r1"
    and rest: "process_in_order cs r1 = Inr r'"
    by (auto split: sum.splits)
  from dedup_inv_processConnectionLog [OF Cons.prems(1) r1] rest show ?case
    by (rule Cons.IH)
qed

lemma processConnectionLogs_returns:
  assumes "processConnectionLogs r (Inr r')"
  obtains segs sched where "segments_of (concurrency r) (connectionLogs r) = Inr segs"
    "interleaving segs sched" "process_in_order sched r = Inr r'"
  using assms by cases auto

lemma distinct_pairs:
  "(\<And>h. distinct (map d_pod (filter (\<lambda>d. d_svc d = h) ds))) \<Longrightarrow>
   distinct (map (\<lambda>d. (d_svc d, d_pod d)) ds)"
proof (induction ds)
  case Nil
  then show ?case by simp
next
  case (Cons d ds)
  have "distinct (map d_pod (filter (\<lambda>e. d_svc e = h) ds))" for h
    using Cons.prems [of h] by (cases "d_svc d = h") simp_all
  then have ih: "distinct (map (\<lambda>d. (d_svc d, d_pod d)) ds)" by (rule Cons.IH)
  have "(d_svc d, d_pod d) \<notin> set (map (\<lambda>d. (d_svc d, d_pod d)) ds)"
  proof
    assume "(d_svc d, d_pod d) \<in> set (map (\<lambda>d. (d_svc d, d_pod d)) ds)"
    then obtain e where e: "e \<in> set ds" "d_svc e = d_svc d" "d_pod e = d_pod d" by auto
    then have "e \<in> set (filter (\<lambda>e. d_svc e = d_svc d) ds)" by simp
    then have "d_pod e \<in> d_pod ` set (filter (\<lambda>e. d_svc e = d_svc d) ds)"
      by (rule imageI)
    then have "d_pod e \<in> set (map d_pod (filter (\<lambda>e. d_svc e = d_svc d) ds))"
      by (simp only: set_map)
    then have "d_pod d \<in> set (map d_pod (filter (\<lambda>e. d_svc e = d_svc d) ds))"
      using e(3) by simp
    with Cons.prems [of "d_svc d"] show False by simp
  qed
  with ih show ?case by simp
qed

lemma interleaving_single: "interleaving [xs] xs"
proof (induction xs)
  case Nil
  show ?case by (rule interleaving.all_done) simp
next
  case (Cons x xs)
  show ?case
    by (rule interleaving.next_event [of 0 _ _ xs]) (simp_all add: Cons)
qed

lemma segments_of_one_segment:
  "xs \<noteq> [] \<Longrightarrow> int (length xs) < c \<Longrightarrow> segments_of c xs = Inr [xs]"
  by (simp add: segments_of_positive)

text \<open>The entries of a hostname after the events of a list, in the order of the list.\<close>

lemma resolved_identity_static:
  "allNamespaces r' = allNamespaces r \<Longrightarrow> allEndpoints r' = allEndpoints r \<Longrightarrow>
   resolved_identity r' c = resolved_identity r c"
  by (simp add: resolved_identity_def)

lemma events_to_static:
  "toPodServiceFQDNs r' = toPodServiceFQDNs r \<Longrightarrow> events_to r' h cs = events_to r h cs"
  by (simp add: events_to_def)

lemma processConnectionLog_entries:
  assumes "processConnectionLog r c = Inr r'"
  shows "entries r' h =
     (if ToHostname c = h \<and> h \<in> set (toPodServiceFQDNs r) \<and>
         podname (resolved_identity r c) \<notin> set (map podname (entries r h))
      then entries r h @ [resolved_identity r c] else entries r h)"
proof -
  from processConnectionLog_cases [OF assms]
  consider "ToHostname c \<notin> set (toPodServiceFQDNs r)" "r' = r"
    | n ns found where "ToHostname c \<in> set (toPodServiceFQDNs r)"
        "namespaces_loop (allEndpoints r) (FromIP c) (allNamespaces r) = Inr (n, ns, found)"
        "r' = record_identity r (ToHostname c) n ns"
    by blast
  then show ?thesis
  proof cases
    case 1
    then show ?thesis by auto
  next
    case 2
    have ri: "resolved_identity r c = \<lparr>podname = n, namespace = ns\<rparr>"
      by (simp add: resolved_identity_def 2(2))
    show ?thesis
    proof (cases "h = ToHostname c")
      case True
      then show ?thesis using 2(1) by (simp add: 2(3) ri entries_record_identity)
    next
      case False
      then show ?thesis by (auto simp: 2(3) entries_record_identity)
    qed
  qed
qed

lemma process_in_order_entries:
  "process_in_order cs r = Inr r' \<Longrightarrow>
   entries r' h =
     entries r h @
       first_by_name (filter (\<lambda>m. podname m \<notin> set (map podname (entries r h)))
         (map (resolved_identity r) (events_to r h cs)))"
proof (induction cs arbitrary: r)
  case Nil
  then show ?case by (simp add: events_to_def)
next
  case (Cons c cs)
  from Cons.prems obtain r1 where r1: "processConnectionLog r c = Inr r1"
    and rest: "process_in_order cs r1 = Inr r'"
    by (auto split: sum.splits)
  note st = static_processConnectionLog [OF r1]
  have ri: "resolved_identity r1 = resolved_identity r"
    using st by (intro ext resolved_identity_static) simp_all
  have ev: "events_to r1 h cs = events_to r h cs"
    using st by (intro events_to_static) simp
  have ih: "entries r' h =
     entries r1 h @
       first_by_name (filter (\<lambda>m. podname m \<notin> set (map podname (entries r1 h)))
         (map (resolved_identity r) (events_to r h cs)))"
    using Cons.IH [OF rest] by (simp only: ri ev)
  note e1 = processConnectionLog_entries [OF r1, of h]
  let ?m = "resolved_identity r c"
  let ?E = "entries r h"
  let ?rest = "map (resolved_identity r) (events_to r h cs)"
  show ?case
  proof (cases "ToHostname c = h \<and> h \<in> set (toPodServiceFQDNs r)")
    case False
    then have "entries r1 h = ?E" using e1 by auto
    moreover have "events_to r h (c # cs) = events_to r h cs"
      using False by (auto simp: events_to_def)
    ultimately show ?thesis using ih by simp
  next
    case to: True
    then have evc: "events_to r h (c # cs) = c # events_to r h cs"
      by (simp add: events_to_def)
    show ?thesis
    proof (cases "podname ?m \<in> set (map podname ?E)")
      case True
      then have "entries r1 h = ?E" using e1 by simp
      then show ?thesis using ih True by (simp add: evc)
    next
      case False
      then have e: "entries r1 h = ?E @ [?m]" using e1 to by simp
      have f: "filter (\<lambda>m. podname m \<notin> set (map podname (?E @ [?m]))) ?rest =
          filter (\<lambda>x. podname x \<noteq> podname ?m) (filter (\<lambda>m. podname m \<notin> set (map podname ?E)) ?rest)"
        by (auto simp: filter_filter intro: filter_cong)
      show ?thesis using ih False by (simp add: e evc f del: set_map map_append)
    qed
  qed
qed

lemma interleaving_set: "interleaving segs sched \<Longrightarrow> set sched = \<Union> (set ` set segs)"
proof (induction rule: interleaving.induct)
  case (all_done segs)
  then show ?case by (auto simp: list_all_iff)
next
  case (next_event i segs x rest xs)
  have "\<Union> (set ` set segs) = insert x (\<Union> (set ` set (segs[i := rest])))"
  proof (intro set_eqI iffI)
    fix y
    assume "y \<in> \<Union> (set ` set segs)"
    then obtain s where "s \<in> set segs" "y \<in> set s" by auto
    then obtain j where j: "j < length segs" "y \<in> set (segs ! j)"
      by (metis in_set_conv_nth)
    show "y \<in> insert x (\<Union> (set ` set (segs[i := rest])))"
    proof (cases "j = i")
      case True
      with j next_event.hyps have "y = x \<or> y \<in> set rest" by simp
      moreover have "rest \<in> set (segs[i := rest])"
        using next_event.hyps(1) by (simp add: set_update_memI)
      ultimately show ?thesis by auto
    next
      case False
      then have "segs[i := rest] ! j = segs ! j" by simp
      moreover have "j < length (segs[i := rest])" using j by simp
      ultimately have "segs ! j \<in> set (segs[i := rest])" by (metis nth_mem)
      with j show ?thesis by auto
    qed
  next
    fix y
    assume "y \<in> insert x (\<Union> (set ` set (segs[i := rest])))"
    then consider "y = x" | s where "s \<in> set (segs[i := rest])" "y \<in> set s" by auto
    then show "y \<in> \<Union> (set ` set segs)"
    proof cases
      case 1
      have "segs ! i \<in> set segs" using next_event.hyps(1) by simp
      moreover have "y \<in> set (segs ! i)" using 1 next_event.hyps(2) by simp
      ultimately show ?thesis by (rule UN_I)
    next
      case 2
      from 2(1) have "s = rest \<or> s \<in> set segs"
        using set_update_subset_insert [of segs i rest] by auto
      then show ?thesis
      proof
        assume "s = rest"
        with 2(2) next_event.hyps(2) have "y \<in> set (segs ! i)" by simp
        moreover have "segs ! i \<in> set segs" using next_event.hyps(1) by simp
        ultimately show ?thesis by (rule UN_I [rotated])
      next
        assume "s \<in> set segs"
        then show ?thesis using 2(2) by (rule UN_I)
      qed
    qed
  qed
  with next_event.IH show ?case by simp
qed

lemma interleaving_one:
  "interleaving segs sched \<Longrightarrow> length segs \<le> 1 \<Longrightarrow> sched = concat segs"
proof (induction rule: interleaving.induct)
  case (all_done segs)
  then show ?case by (cases segs) auto
next
  case (next_event i segs x rest xs)
  then have "i = 0" "segs = [x # rest]"
    by (cases segs; simp)+
  with next_event show ?case by simp
qed

text \<open>
  C7: a run of \<open>processConnectionLogs\<close> that starts from an empty mapping and an empty log
  and returns has processed the events in an order that interleaves the segments (for a
  factor \<open>\<ge> 1\<close> these are all the events of the list). Under every hostname the entries are
  the identities resolved for the events to that hostname, in that order, without those
  whose pod name was recorded before; so they have distinct pod names. The discovery
  records of the hostname are exactly its entries, in order of insertion, so every entry
  was logged once, when it was appended; and no two discovery records share hostname and
  pod name.
\<close>

theorem processConnectionLogs_dedup:
  "hostnamePodMapping r = Map.empty \<and> infoLog r = [] \<and> processConnectionLogs r (Inr r') \<longrightarrow>
     (\<exists>segs sched. segments_of (concurrency r) (connectionLogs r) = Inr segs \<and>
        interleaving segs sched \<and>
        (1 \<le> concurrency r \<longrightarrow> set sched = set (connectionLogs r)) \<and>
        (\<forall>k. entries r' k = first_by_name (map (resolved_identity r) (events_to r k sched)))) \<and>
     distinct (map podname (entries r' h)) \<and>
     map identity_of (filter (\<lambda>d. d_svc d = h) (infoLog r')) = entries r' h \<and>
     distinct (map (\<lambda>d. (d_svc d, d_pod d)) (infoLog r'))"
proof
  assume a: "hostnamePodMapping r = Map.empty \<and> infoLog r = [] \<and> processConnectionLogs r (Inr r')"
  then have start: "dedup_inv r" by (simp add: dedup_inv_def entries_def)
  from a obtain segs sched where seg: "segments_of (concurrency r) (connectionLogs r) = Inr segs"
    and il: "interleaving segs sched" and run: "process_in_order sched r = Inr r'"
    by (auto elim: processConnectionLogs_returns)
  from start run have inv: "dedup_inv r'" by (rule dedup_inv_process_in_order)
  have cover: "set sched = set (connectionLogs r)" if "1 \<le> concurrency r"
  proof -
    from segments_of_cover [OF that, of "connectionLogs r"] seg
    have "concat segs = connectionLogs r" by simp
    then have "set (connectionLogs r) = \<Union> (set ` set segs)" by (metis set_concat)
    with interleaving_set [OF il] show ?thesis by simp
  qed
  have ent: "entries r' k = first_by_name (map (resolved_identity r) (events_to r k sched))" for k
  proof -
    have "entries r k = []" using a by (simp add: entries_def)
    with process_in_order_entries [OF run, of k] show ?thesis by simp
  qed
  have "distinct (map d_pod (filter (\<lambda>d. d_svc d = k) (infoLog r')))" for k
  proof -
    from inv have "distinct (map podname (map identity_of (filter (\<lambda>d. d_svc d = k) (infoLog r'))))"
      by (simp add: dedup_inv_def)
    then show ?thesis by (simp add: o_def identity_of_def)
  qed
  then have dl: "distinct (map (\<lambda>d. (d_svc d, d_pod d)) (infoLog r'))" by (rule distinct_pairs)
  have ex: "\<exists>segs sched. segments_of (concurrency r) (connectionLogs r) = Inr segs \<and>
        interleaving segs sched \<and>
        (1 \<le> concurrency r \<longrightarrow> set sched = set (connectionLogs r)) \<and>
        (\<forall>k. entries r' k = first_by_name (map (resolved_identity r) (events_to r k sched)))"
    using seg il cover ent by blast
  from inv have "distinct (map podname (entries r' h))"
    "map identity_of (filter (\<lambda>d. d_svc d = h) (infoLog r')) = entries r' h"
    by (simp_all add: dedup_inv_def)
  with ex dl show "(\<exists>segs sched. segments_of (concurrency r) (connectionLogs r) = Inr segs \<and>
        interleaving segs sched \<and>
        (1 \<le> concurrency r \<longrightarrow> set sched = set (connectionLogs r)) \<and>
        (\<forall>k. entries r' k = first_by_name (map (resolved_identity r) (events_to r k sched)))) \<and>
     distinct (map podname (entries r' h)) \<and>
     map identity_of (filter (\<lambda>d. d_svc d = h) (infoLog r')) = entries r' h \<and>
     distinct (map (\<lambda>d. (d_svc d, d_pod d)) (infoLog r'))"
    by blast
qed

text \<open>Scenario C with a third event from another pod: two entries and two records.\<close>

theorem processConnectionLogs_dedup_witness:
  "hostnamePodMapping repeatedCallerRunner = Map.empty \<and> infoLog repeatedCallerRunner = [] \<and>
   connectionLogs repeatedCallerRunner = [userEvent, userEvent, ordersEvent] \<and>
   processConnectionLogs repeatedCallerRunner (Inr repeatedCallerResult) \<and>
   entries repeatedCallerResult userDbFQDN =
     first_by_name (map (resolved_identity repeatedCallerRunner)
       (events_to repeatedCallerRunner userDbFQDN [userEvent, userEvent, ordersEvent])) \<and>
   map (resolved_identity repeatedCallerRunner)
       (events_to repeatedCallerRunner userDbFQDN [userEvent, userEvent, ordersEvent]) =
     [userIdentity, userIdentity, ordersIdentity] \<and>
   entries repeatedCallerResult userDbFQDN = [userIdentity, ordersIdentity] \<and>
   infoLog repeatedCallerResult = [userDiscovery, ordersDiscovery] \<and>
   distinct (map podname (entries repeatedCallerResult userDbFQDN)) \<and>
   map identity_of (filter (\<lambda>d. d_svc d = userDbFQDN) (infoLog repeatedCallerResult)) =
     entries repeatedCallerResult userDbFQDN \<and>
   distinct (map (\<lambda>d. (d_svc d, d_pod d)) (infoLog repeatedCallerResult))"
proof -
  have a: "hostnamePodMapping repeatedCallerRunner = Map.empty" "infoLog repeatedCallerRunner = []"
    "connectionLogs repeatedCallerRunner = [userEvent, userEvent, ordersEvent]"
    by (simp_all add: repeatedCallerRunner_def sockShopRunner_def)
  have seg: "segments_of (concurrency repeatedCallerRunner) (connectionLogs repeatedCallerRunner) =
      Inr [[userEvent, userEvent, ordersEvent]]"
    by (simp add: repeatedCallerRunner_def segments_of_one_segment)
  have run: "process_in_order [userEvent, userEvent, ordersEvent] repeatedCallerRunner =
      Inr repeatedCallerResult"
    by (simp add: sample_defs processConnectionLog_def record_identity_def)
  have b: "processConnectionLogs repeatedCallerRunner (Inr repeatedCallerResult)"
    using processConnectionLogs.runs [OF seg interleaving_single] unfolding run .
  have c: "entries repeatedCallerResult userDbFQDN = [userIdentity, ordersIdentity]"
    "infoLog repeatedCallerResult = [userDiscovery, ordersDiscovery]"
    by (simp_all add: repeatedCallerResult_def entries_def)
  have m: "map (resolved_identity repeatedCallerRunner)
       (events_to repeatedCallerRunner userDbFQDN [userEvent, userEvent, ordersEvent]) =
     [userIdentity, userIdentity, ordersIdentity]"
    by (simp add: sample_defs events_to_def resolved_identity_def)
  note t = processConnectionLogs_dedup [of repeatedCallerRunner repeatedCallerResult userDbFQDN]
  from t a b obtain segs sched
    where s: "segments_of (concurrency repeatedCallerRunner) (connectionLogs repeatedCallerRunner) = Inr segs"
      "interleaving segs sched"
      "\<forall>k. entries repeatedCallerResult k =
         first_by_name (map (resolved_identity repeatedCallerRunner) (events_to repeatedCallerRunner k sched))"
    by blast
  from s(1) seg have "segs = [[userEvent, userEvent, ordersEvent]]" by simp
  with s(2) have "sched = [userEvent, userEvent, ordersEvent]"
    using interleaving_one [of segs sched] by simp
  with s(3) have d: "entries repeatedCallerResult userDbFQDN =
     first_by_name (map (resolved_identity repeatedCallerRunner)
       (events_to repeatedCallerRunner userDbFQDN [userEvent, userEvent, ordersEvent]))"
    by simp
  from t a b have "distinct (map podname (entries repeatedCallerResult userDbFQDN)) \<and>
     map identity_of (filter (\<lambda>d. d_svc d = userDbFQDN) (infoLog repeatedCallerResult)) =
       entries repeatedCallerResult userDbFQDN \<and>
     distinct (map (\<lambda>d. (d_svc d, d_pod d)) (infoLog repeatedCallerResult))"
    by blast
  with a b c d m show ?thesis by blast
qed

section \<open>Runs of the same events\<close>

lemma resolved_name_static:
  "allNamespaces r' = allNamespaces r \<Longrightarrow> allEndpoints r' = allEndpoints r \<Longrightarrow>
   resolved_name r' c = resolved_name r c"
  by (simp add: resolved_name_def)

lemma event_panics_static:
  "toPodServiceFQDNs r' = toPodServiceFQDNs r \<Longrightarrow> allNamespaces r' = allNamespaces r \<Longrightarrow>
   allEndpoints r' = allEndpoints r \<Longrightarrow> event_panics r' c = event_panics r c"
  by (simp add: event_panics_def)

lemma processConnectionLog_panics_iff: "isl (processConnectionLog r c) \<longleftrightarrow> event_panics r c"
  by (auto simp: processConnectionLog_def fqdns_loop_member event_panics_def split: sum.splits)

lemma processConnectionLog_keys:
  assumes "processConnectionLog r c = Inr r'"
  shows "dom (hostnamePodMapping r') =
     dom (hostnamePodMapping r) \<union> (if ToHostname c \<in> set (toPodServiceFQDNs r) then {ToHostname c} else {})"
  using processConnectionLog_cases [OF assms]
  by (elim disjE exE conjE) (simp_all add: dom_record_identity)

lemma processConnectionLog_names:
  assumes "processConnectionLog r c = Inr r'"
  shows "set (map podname (entries r' h)) =
     set (map podname (entries r h)) \<union>
       (if ToHostname c = h \<and> h \<in> set (toPodServiceFQDNs r) then {resolved_name r c} else {})"
proof -
  from processConnectionLog_cases [OF assms]
  consider "ToHostname c \<notin> set (toPodServiceFQDNs r)" "r' = r"
    | n ns found where "ToHostname c \<in> set (toPodServiceFQDNs r)"
        "namespaces_loop (allEndpoints r) (FromIP c) (allNamespaces r) = Inr (n, ns, found)"
        "r' = record_identity r (ToHostname c) n ns"
    by blast
  then show ?thesis
  proof cases
    case 1
    then show ?thesis by auto
  next
    case 2
    have rn: "resolved_name r c = n" by (simp add: resolved_name_def 2(2))
    show ?thesis
    proof (cases "h = ToHostname c")
      case True
      then show ?thesis using 2(1) by (auto simp: 2(3) rn entries_record_identity)
    next
      case False
      then show ?thesis by (simp add: 2(3) entries_record_identity)
    qed
  qed
qed

lemma process_in_order_static:
  "process_in_order cs r = Inr r' \<Longrightarrow>
   toPodServiceFQDNs r' = toPodServiceFQDNs r \<and> allNamespaces r' = allNamespaces r \<and>
   allEndpoints r' = allEndpoints r"
proof (induction cs arbitrary: r)
  case Nil
  then show ?case by simp
next
  case (Cons c cs)
  from Cons.prems obtain r1 where r1: "processConnectionLog r c = Inr r1"
    and rest: "process_in_order cs r1 = Inr r'"
    by (auto split: sum.splits)
  from Cons.IH [OF rest] static_processConnectionLog [OF r1] show ?case by simp
qed

lemma process_in_order_keys:
  "process_in_order cs r = Inr r' \<Longrightarrow>
   dom (hostnamePodMapping r') =
     dom (hostnamePodMapping r) \<union>
       set (filter (\<lambda>h. h \<in> set (toPodServiceFQDNs r)) (map ToHostname cs))"
proof (induction cs arbitrary: r)
  case Nil
  then show ?case by simp
next
  case (Cons c cs)
  from Cons.prems obtain r1 where r1: "processConnectionLog r c = Inr r1"
    and rest: "process_in_order cs r1 = Inr r'"
    by (auto split: sum.splits)
  have st: "toPodServiceFQDNs r1 = toPodServiceFQDNs r"
    by (rule static_processConnectionLog [OF r1])
  have "dom (hostnamePodMapping r') =
     dom (hostnamePodMapping r1) \<union>
       set (filter (\<lambda>h. h \<in> set (toPodServiceFQDNs r)) (map ToHostname cs))"
    using Cons.IH [OF rest] by (simp only: st)
  also have "dom (hostnamePodMapping r1) =
     dom (hostnamePodMapping r) \<union>
       (if ToHostname c \<in> set (toPodServiceFQDNs r) then {ToHostname c} else {})"
    by (rule processConnectionLog_keys [OF r1])
  finally show ?case by (simp add: Un_assoc)
qed

lemma process_in_order_names:
  "process_in_order cs r = Inr r' \<Longrightarrow>
   set (map podname (entries r' h)) =
     set (map podname (entries r h)) \<union>
       resolved_name r ` set (filter (\<lambda>c. ToHostname c = h \<and> h \<in> set (toPodServiceFQDNs r)) cs)"
proof (induction cs arbitrary: r)
  case Nil
  then show ?case by simp
next
  case (Cons c cs)
  from Cons.prems obtain r1 where r1: "processConnectionLog r c = Inr r1"
    and rest: "process_in_order cs r1 = Inr r'"
    by (auto split: sum.splits)
  note st = static_processConnectionLog [OF r1]
  have rn: "resolved_name r1 = resolved_name r"
    using st by (intro ext resolved_name_static) simp_all
  have "set (map podname (entries r' h)) =
     set (map podname (entries r1 h)) \<union>
       resolved_name r ` set (filter (\<lambda>c. ToHostname c = h \<and> h \<in> set (toPodServiceFQDNs r)) cs)"
    using Cons.IH [OF rest] by (simp only: st rn)
  also have "set (map podname (entries r1 h)) =
     set (map podname (entries r h)) \<union>
       (if ToHostname c = h \<and> h \<in> set (toPodServiceFQDNs r) then {resolved_name r c} else {})"
    by (rule processConnectionLog_names [OF r1])
  finally show ?case by (simp add: Un_assoc)
qed

lemma process_in_order_panics_iff:
  "isl (process_in_order cs r) \<longleftrightarrow> (\<exists>c \<in> set cs. event_panics r c)"
proof (induction cs arbitrary: r)
  case Nil
  then show ?case by simp
next
  case (Cons c cs)
  show ?case
  proof (cases "processConnectionLog r c")
    case (Inl p)
    then have "event_panics r c" using processConnectionLog_panics_iff [of r c] by simp
    with Inl show ?thesis by simp
  next
    case (Inr r1)
    then have np: "\<not> event_panics r c" using processConnectionLog_panics_iff [of r c] by simp
    have "event_panics r1 e = event_panics r e" for e
      by (rule event_panics_static) (simp_all add: static_processConnectionLog [OF Inr])
    with Inr np Cons.IH [of r1] show ?thesis by simp
  qed
qed

text \<open>
  C8, as the code has it: if one run of \<open>processConnectionLogs\<close> on a runner returns, then
  every run on that runner returns. When the runs start from the empty mapping, their
  results have the same hostname keys and, under every key, the same set of pod names.
  When the events form at most one segment, the results are equal.
\<close>

theorem processConnectionLogs_runs_agree:
  "processConnectionLogs r (Inr r1) \<and> processConnectionLogs r out \<longrightarrow>
     (\<exists>r2. out = Inr r2 \<and>
        (hostnamePodMapping r = Map.empty \<longrightarrow>
           dom (hostnamePodMapping r1) = dom (hostnamePodMapping r2) \<and>
           (\<forall>h. set (map podname (entries r1 h)) = set (map podname (entries r2 h)))) \<and>
        (\<forall>segs. segments_of (concurrency r) (connectionLogs r) = Inr segs \<and> length segs \<le> 1 \<longrightarrow>
           r2 = r1))"
proof
  assume a: "processConnectionLogs r (Inr r1) \<and> processConnectionLogs r out"
  then obtain segs s1 where seg: "segments_of (concurrency r) (connectionLogs r) = Inr segs"
    and i1: "interleaving segs s1" and p1: "process_in_order s1 r = Inr r1"
    by (auto elim: processConnectionLogs_returns)
  from a have "processConnectionLogs r out" by simp
  then obtain s2 where i2: "interleaving segs s2" and p2: "out = process_in_order s2 r"
    using seg by cases auto
  have same: "set s1 = set s2"
    using interleaving_set [OF i1] interleaving_set [OF i2] by simp
  have "\<not> isl (process_in_order s1 r)" using p1 by simp
  then have "\<not> isl (process_in_order s2 r)"
    by (simp add: process_in_order_panics_iff same)
  then obtain r2 where r2: "process_in_order s2 r = Inr r2"
    by (cases "process_in_order s2 r") auto
  have keys: "dom (hostnamePodMapping r1) = dom (hostnamePodMapping r2)"
    by (simp only: process_in_order_keys [OF p1] process_in_order_keys [OF r2] set_filter set_map same)
  have names: "set (map podname (entries r1 h)) = set (map podname (entries r2 h))" for h
    by (simp only: process_in_order_names [OF p1] process_in_order_names [OF r2] set_filter same)
  have one: "r2 = r1" if "segments_of (concurrency r) (connectionLogs r) = Inr segs'" "length segs' \<le> 1" for segs'
  proof -
    from that seg have "length segs \<le> 1" by simp
    then have "s1 = concat segs" "s2 = concat segs"
      using i1 i2 by (simp_all add: interleaving_one)
    with p1 r2 show ?thesis by simp
  qed
  show "\<exists>r2. out = Inr r2 \<and>
        (hostnamePodMapping r = Map.empty \<longrightarrow>
           dom (hostnamePodMapping r1) = dom (hostnamePodMapping r2) \<and>
           (\<forall>h. set (map podname (entries r1 h)) = set (map podname (entries r2 h)))) \<and>
        (\<forall>segs. segments_of (concurrency r) (connectionLogs r) = Inr segs \<and> length segs \<le> 1 \<longrightarrow>
           r2 = r1)"
    using p2 r2 keys names one by blast
qed

lemma twoCallers_segments:
  "segments_of (concurrency twoCallersRunner) (connectionLogs twoCallersRunner) =
     Inr [[userEvent], [ordersEvent]]"
  by (simp add: twoCallersRunner_def sockShopRunner_def segments_of_positive chunk_def upt_rec)

lemma interleaving_two:
  "interleaving [[a], [b]] [a, b]" "interleaving [[a], [b]] [b, a]"
proof -
  have e: "interleaving [[], []] ([] :: 'a list)"
    by (rule interleaving.all_done) simp
  have "interleaving [[], [b]] [b]"
    by (rule interleaving.next_event [of 1 _ b "[]"]) (simp_all add: e)
  then show "interleaving [[a], [b]] [a, b]"
    by (intro interleaving.next_event [of 0 _ a "[]"]) simp_all
  have "interleaving [[a], []] [a]"
    by (rule interleaving.next_event [of 0 _ a "[]"]) (simp_all add: e)
  then show "interleaving [[a], [b]] [b, a]"
    by (intro interleaving.next_event [of 1 _ b "[]"]) simp_all
qed

lemma twoCallers_user_first: "processConnectionLogs twoCallersRunner (Inr userFirstResult)"
proof -
  have run: "process_in_order [userEvent, ordersEvent] twoCallersRunner = Inr userFirstResult"
    by (simp add: sample_defs processConnectionLog_def record_identity_def)
  show ?thesis
    using processConnectionLogs.runs [OF twoCallers_segments interleaving_two(1)] unfolding run .
qed

lemma twoCallers_orders_first: "processConnectionLogs twoCallersRunner (Inr ordersFirstResult)"
proof -
  have run: "process_in_order [ordersEvent, userEvent] twoCallersRunner = Inr ordersFirstResult"
    by (simp add: sample_defs processConnectionLog_def record_identity_def)
  show ?thesis
    using processConnectionLogs.runs [OF twoCallers_segments interleaving_two(2)] unfolding run .
qed

text \<open>
  C8 as stated fails: with the factor 1 the two events are two segments, either goroutine
  may take the mutex first, and the two runs insert the identities in opposite orders.
\<close>

theorem processConnectionLogs_order_counterexample:
  "connectionLogs twoCallersRunner = [userEvent, ordersEvent] \<and>
   hostnamePodMapping twoCallersRunner = Map.empty \<and>
   processConnectionLogs twoCallersRunner (Inr userFirstResult) \<and>
   processConnectionLogs twoCallersRunner (Inr ordersFirstResult) \<and>
   hostnamePodMapping userFirstResult userDbFQDN = Some [userIdentity, ordersIdentity] \<and>
   hostnamePodMapping ordersFirstResult userDbFQDN = Some [ordersIdentity, userIdentity] \<and>
   hostnamePodMapping userFirstResult userDbFQDN \<noteq> hostnamePodMapping ordersFirstResult userDbFQDN"
proof -
  have "connectionLogs twoCallersRunner = [userEvent, ordersEvent]"
    "hostnamePodMapping twoCallersRunner = Map.empty"
    by (simp_all add: twoCallersRunner_def sockShopRunner_def)
  moreover have "hostnamePodMapping userFirstResult userDbFQDN = Some [userIdentity, ordersIdentity]"
    "hostnamePodMapping ordersFirstResult userDbFQDN = Some [ordersIdentity, userIdentity]"
    by (simp_all add: userFirstResult_def ordersFirstResult_def)
  moreover have "userIdentity \<noteq> ordersIdentity"
    by (simp add: userIdentity_def ordersIdentity_def)
  ultimately show ?thesis
    using twoCallers_user_first twoCallers_orders_first by simp
qed

text \<open>The theorem at the two runs of the two-segment runner and at the one-segment runner.\<close>

theorem processConnectionLogs_runs_agree_witness:
  "processConnectionLogs twoCallersRunner (Inr userFirstResult) \<and>
   processConnectionLogs twoCallersRunner (Inr ordersFirstResult) \<and>
   hostnamePodMapping twoCallersRunner = Map.empty \<and>
   dom (hostnamePodMapping userFirstResult) = dom (hostnamePodMapping ordersFirstResult) \<and>
   set (map podname (entries userFirstResult userDbFQDN)) =
     set (map podname (entries ordersFirstResult userDbFQDN)) \<and>
   processConnectionLogs repeatedCallerRunner (Inr repeatedCallerResult) \<and>
   segments_of (concurrency repeatedCallerRunner) (connectionLogs repeatedCallerRunner) =
     Inr [[userEvent, userEvent, ordersEvent]] \<and>
   length [[userEvent, userEvent, ordersEvent]] \<le> 1"
proof -
  have e: "hostnamePodMapping twoCallersRunner = Map.empty"
    by (simp add: twoCallersRunner_def sockShopRunner_def)
  from processConnectionLogs_runs_agree [of twoCallersRunner userFirstResult "Inr ordersFirstResult"]
    twoCallers_user_first twoCallers_orders_first e
  have a: "dom (hostnamePodMapping userFirstResult) = dom (hostnamePodMapping ordersFirstResult) \<and>
     (\<forall>h. set (map podname (entries userFirstResult h)) = set (map podname (entries ordersFirstResult h)))"
    by blast
  have seg: "segments_of (concurrency repeatedCallerRunner) (connectionLogs repeatedCallerRunner) =
      Inr [[userEvent, userEvent, ordersEvent]]"
    by (simp add: repeatedCallerRunner_def segments_of_one_segment)
  have run: "process_in_order [userEvent, userEvent, ordersEvent] repeatedCallerRunner =
      Inr repeatedCallerResult"
    by (simp add: sample_defs processConnectionLog_def record_identity_def)
  have b: "processConnectionLogs repeatedCallerRunner (Inr repeatedCallerResult)"
    using processConnectionLogs.runs [OF seg interleaving_single] unfolding run .
  from a b e seg twoCallers_user_first twoCallers_orders_first show ?thesis by simp
qed

section \<open>A run with a negative factor\<close>

text \<open>
  C9 as stated fails: the factor \<open>-3\<close> is less than 1, and still the two events are cut
  without a panic, into one segment that covers the list, and the run returns.
\<close>

theorem segments_of_negative_factor_counterexample:
  "\<not> (1::int) \<le> - 3 \<and>
   segments_of (- 3) [userEvent, ordersEvent] = Inr [[userEvent, ordersEvent]] \<and>
   concat [[userEvent, ordersEvent]] = [userEvent, ordersEvent] \<and>
   concurrency negativeFactorRunner = - 3 \<and>
   connectionLogs negativeFactorRunner = [userEvent, ordersEvent] \<and>
   processConnectionLogs negativeFactorRunner (Inr negativeFactorResult)"
proof -
  have seg: "segments_of (- 3) [userEvent, ordersEvent] = Inr [[userEvent, ordersEvent]]"
    by (simp add: segments_of_negative_factor)
  have f: "concurrency negativeFactorRunner = - 3"
    "connectionLogs negativeFactorRunner = [userEvent, ordersEvent]"
    by (simp_all add: negativeFactorRunner_def twoCallersRunner_def sockShopRunner_def)
  have seg': "segments_of (concurrency negativeFactorRunner) (connectionLogs negativeFactorRunner) =
      Inr [[userEvent, ordersEvent]]"
    by (simp only: f seg)
  have run: "process_in_order [userEvent, ordersEvent] negativeFactorRunner = Inr negativeFactorResult"
    by (simp add: sample_defs negativeFactorRunner_def negativeFactorResult_def
        processConnectionLog_def record_identity_def)
  have "processConnectionLogs negativeFactorRunner (Inr negativeFactorResult)"
    using processConnectionLogs.runs [OF seg' interleaving_single] unfolding run .
  with seg f show ?thesis by simp
qed

section \<open>Policy synthesis after a failed label fetch\<close>

text \<open>
  C4 at a concrete input: the lookup of the second identity fails. The error is logged, and
  the loop goes on with the pod the call returned: with the empty pod of the typed client
  the policy gets a second peer whose \<open>MatchLabels\<close> is the nil map, and with a nil
  pointer \<open>suggestNetPol\<close> panics.
\<close>

theorem suggestNetPol_failed_fetch_adds_peer:
  "sockShopGet (namespace ordersIdentity) (podname ordersIdentity) =
     (Some \<lparr>pod_Name = [], pod_Labels = None\<rparr>, Some ''pods orders-6d8c5b7f4-x2x9q not found'') \<and>
   suggestNetPol sockShopGet userDbPod [userDbFQDN \<mapsto> [userIdentity, ordersIdentity]] [userDbFQDN] =
     Inr (\<lparr>np_Name = ''user-db-b8dfb847c-wvkgf-ingress'',
           np_PodSelector = Some [(''name'', ''user-db''), (''tier'', ''db'')],
           np_From = [\<lparr>MatchLabels = Some [(''name'', ''user'')]\<rparr>, \<lparr>MatchLabels = None\<rparr>]\<rparr>,
          [''pods orders-6d8c5b7f4-x2x9q not found'']) \<and>
   suggestNetPol nilGet userDbPod [userDbFQDN \<mapsto> [userIdentity, ordersIdentity]] [userDbFQDN] =
     Inl NilDereference"
  by (simp add: suggestNetPol_def sockShopGet_def nilGet_def userDbPod_def userIdentity_def
      ordersIdentity_def delete_ignored_def ignoredPodLabels_def go_map_delete_def DeepEqual_def)

end
